theory Spec2Isabelle
  imports Complex_Main "HOL-Library.AList"
begin

section \<open>Python values, dictionaries and exceptions\<close>

text \<open>
  Attribute values stored on users and relationships: strings, integers and \<open>None\<close>.
\<close>

datatype pyval = PNone | PStr string | PInt int

text \<open>
  A Python \<open>dict\<close> keeps its keys in insertion order. It is an association list with
  distinct keys: \<open>d[k] = v\<close> is \<open>AList.update k v d\<close> (an existing key keeps its
  place, a new key goes to the end), \<open>del d[k]\<close> is \<open>AList.delete k d\<close>, \<open>k in d\<close>
  is membership in \<open>keys d\<close>.
\<close>

type_synonym attrs = "(string \<times> pyval) list"

type_synonym adjacency = "(string \<times> (string \<times> attrs) list) list"

definition keys :: "('k \<times> 'v) list \<Rightarrow> 'k list" where
  "keys d = map fst d"

definition dict_update :: "('k \<times> 'v) list \<Rightarrow> ('k \<times> 'v) list \<Rightarrow> ('k \<times> 'v) list" where
  \<comment> \<open>\<open>d.update(other)\<close>\<close>
  "dict_update d other = foldl (\<lambda>acc kv. AList.update (fst kv) (snd kv) acc) d other"

definition dict_get :: "('k \<times> 'v) list \<Rightarrow> 'k \<Rightarrow> 'v \<Rightarrow> 'v" where
  \<comment> \<open>\<open>d.get(k, default)\<close>\<close>
  "dict_get d k dflt = (case map_of d k of None \<Rightarrow> dflt | Some v \<Rightarrow> v)"

datatype error =
    ValueError string
  | KeyError string
  | NetworkXError string
  | NetworkXPointlessConcept string
  | StopIteration
  | ImportError
  | TypeError
  | LibraryError string

definition quoted :: "string \<Rightarrow> string" where
  "quoted s = [CHR 0x27] @ s @ [CHR 0x27]"

text \<open>
  A call \<open>f(a, b, **d)\<close> passes the entries of the dictionary \<open>d\<close> as keyword
  arguments. When a key of \<open>d\<close> is the name of a parameter that is already given by
  position, Python raises \<open>TypeError\<close> (multiple values for the argument) before the
  body of \<open>f\<close> runs.
\<close>

definition keyword_clash :: "string list \<Rightarrow> attrs \<Rightarrow> bool" where
  "keyword_clash params kwargs = (set (keys kwargs) \<inter> set params \<noteq> {})"

section \<open>The directed graph of the graph library\<close>

text \<open>
  \<open>self.graph\<close> is a \<open>networkx.DiGraph\<close>. The library is not part of the repository;
  its graph class is modelled here from its documented behaviour: three dictionaries,
  the node attributes, the successors of each node and the predecessors of each node,
  each adjacency entry holding the attribute dictionary of the edge. In outline, the
  library's code for the two writes the store uses is
  \<^verbatim>\<open>
  def add_node(self, n, **attr):
      if n not in self._succ:
          self._succ[n] = {}
          self._pred[n] = {}
          attr_dict = self._node[n] = {}
          attr_dict.update(attr)
      else:
          self._node[n].update(attr)

  def add_edge(self, u, v, **attr):
      (u and v are created, without attributes, when missing)
      datadict = self._adj[u].get(v, {})
      datadict.update(attr)
      self._succ[u][v] = datadict
      self._pred[v][u] = datadict
  \<close>
  \<open>n in G\<close> looks the node up in \<open>_node\<close>; \<open>G.successors(n)\<close> and
  \<open>G.neighbors(n)\<close> iterate over \<open>_succ[n]\<close> and raise when \<open>n\<close> is no node.
\<close>

record digraph =
  g_node :: "(string \<times> attrs) list"
  g_succ :: adjacency
  g_pred :: adjacency

definition empty_digraph :: digraph where
  \<comment> \<open>\<open>nx.DiGraph()\<close>\<close>
  "empty_digraph = \<lparr>g_node = [], g_succ = [], g_pred = []\<rparr>"

definition nodes :: "digraph \<Rightarrow> string list" where
  \<comment> \<open>\<open>G.nodes()\<close>, in iteration order\<close>
  "nodes g = keys (g_node g)"

definition has_node :: "digraph \<Rightarrow> string \<Rightarrow> bool" where
  \<comment> \<open>\<open>n in G\<close>\<close>
  "has_node g n = (n \<in> set (keys (g_node g)))"

definition adj_of :: "adjacency \<Rightarrow> string \<Rightarrow> (string \<times> attrs) list" where
  \<comment> \<open>the inner dictionary of a node the library knows to be present\<close>
  "adj_of a n = dict_get a n []"

definition ensure_node :: "digraph \<Rightarrow> string \<Rightarrow> digraph" where
  \<comment> \<open>the part of \<open>add_edge\<close> that creates a missing endpoint\<close>
  "ensure_node g n =
     (if n \<notin> set (keys (g_succ g))
      then g\<lparr>g_succ := AList.update n [] (g_succ g),
             g_pred := AList.update n [] (g_pred g),
             g_node := AList.update n [] (g_node g)\<rparr>
      else g)"

definition add_node :: "digraph \<Rightarrow> string \<Rightarrow> attrs \<Rightarrow> digraph" where
  \<comment> \<open>\<open>G.add_node(n, **attr)\<close>: a new node gets the attributes; an existing node has
      its attribute dictionary updated with them\<close>
  "add_node g n attr =
     (if n \<notin> set (keys (g_succ g))
      then g\<lparr>g_succ := AList.update n [] (g_succ g),
             g_pred := AList.update n [] (g_pred g),
             g_node := AList.update n (dict_update [] attr) (g_node g)\<rparr>
      else g\<lparr>g_node := AList.update n (dict_update (dict_get (g_node g) n []) attr) (g_node g)\<rparr>)"

definition add_edge :: "digraph \<Rightarrow> string \<Rightarrow> string \<Rightarrow> attrs \<Rightarrow> digraph" where
  \<comment> \<open>\<open>G.add_edge(u, v, **attr)\<close>: missing endpoints are created; the edge's
      attribute dictionary is updated and stored under both directions\<close>
  "add_edge g u v attr =
     (let g1 = ensure_node (ensure_node g u) v;
          datadict = dict_update (dict_get (adj_of (g_succ g1) u) v []) attr
      in g1\<lparr>g_succ := AList.update u (AList.update v datadict (adj_of (g_succ g1) u)) (g_succ g1),
             g_pred := AList.update v (AList.update u datadict (adj_of (g_pred g1) v)) (g_pred g1)\<rparr>)"

definition has_edge :: "digraph \<Rightarrow> string \<Rightarrow> string \<Rightarrow> bool" where
  \<comment> \<open>\<open>G.has_edge(u, v)\<close>\<close>
  "has_edge g u v =
     (case map_of (g_succ g) u of None \<Rightarrow> False | Some nbrs \<Rightarrow> v \<in> set (keys nbrs))"

definition remove_edge :: "digraph \<Rightarrow> string \<Rightarrow> string \<Rightarrow> error + digraph" where
  \<comment> \<open>\<open>G.remove_edge(u, v)\<close>\<close>
  "remove_edge g u v =
     (if has_edge g u v \<and> u \<in> set (keys (adj_of (g_pred g) v))
      then Inr (g\<lparr>g_succ := AList.update u (AList.delete v (adj_of (g_succ g) u)) (g_succ g),
                  g_pred := AList.update v (AList.delete u (adj_of (g_pred g) v)) (g_pred g)\<rparr>)
      else Inl (NetworkXError (''The edge '' @ u @ ''-'' @ v @ '' not in graph.'')))"

definition remove_node :: "digraph \<Rightarrow> string \<Rightarrow> error + digraph" where
  \<comment> \<open>\<open>G.remove_node(n)\<close>: the node goes, with every edge into it and out of it\<close>
  "remove_node g n =
     (if n \<in> set (keys (g_succ g)) \<and> n \<in> set (keys (g_node g))
      then Inr \<lparr>g_node = AList.delete n (g_node g),
                g_succ = map (\<lambda>(u, nbrs). (u, AList.delete n nbrs)) (AList.delete n (g_succ g)),
                g_pred = map (\<lambda>(u, nbrs). (u, AList.delete n nbrs)) (AList.delete n (g_pred g))\<rparr>
      else Inl (NetworkXError (''The node '' @ n @ '' is not in the digraph.'')))"

definition successors :: "digraph \<Rightarrow> string \<Rightarrow> error + string list" where
  \<comment> \<open>\<open>G.successors(n)\<close>, which is also \<open>G.neighbors(n)\<close> on a directed graph\<close>
  "successors g n =
     (case map_of (g_succ g) n of
        None \<Rightarrow> Inl (NetworkXError (''The node '' @ n @ '' is not in the digraph.''))
      | Some nbrs \<Rightarrow> Inr (keys nbrs))"

definition out_degree :: "digraph \<Rightarrow> string \<Rightarrow> nat" where
  "out_degree g n = length (adj_of (g_succ g) n)"

definition in_degree :: "digraph \<Rightarrow> string \<Rightarrow> nat" where
  "in_degree g n = length (adj_of (g_pred g) n)"

definition degree :: "digraph \<Rightarrow> string \<Rightarrow> nat" where
  \<comment> \<open>\<open>G.degree(n)\<close> on a directed graph: in-degree plus out-degree\<close>
  "degree g n = in_degree g n + out_degree g n"

text \<open>
  The invariant the library keeps on every graph it builds: the three dictionaries have
  the same keys in the same order, without repetition; the endpoints of every edge are
  nodes; and the predecessor dictionary mirrors the successor dictionary.
\<close>

definition wf_adjacency :: "string list \<Rightarrow> adjacency \<Rightarrow> bool" where
  "wf_adjacency ns a =
     (\<forall>e \<in> set a. distinct (keys (snd e)) \<and> set (keys (snd e)) \<subseteq> set ns)"

definition mirrors :: "adjacency \<Rightarrow> adjacency \<Rightarrow> bool" where
  "mirrors a b =
     (\<forall>e \<in> set a. \<forall>f \<in> set (snd e). map_of (adj_of b (fst f)) (fst e) = Some (snd f))"

definition wf_digraph :: "digraph \<Rightarrow> bool" where
  "wf_digraph g =
     (distinct (keys (g_node g)) \<and>
      keys (g_succ g) = keys (g_node g) \<and>
      keys (g_pred g) = keys (g_node g) \<and>
      wf_adjacency (keys (g_node g)) (g_succ g) \<and>
      wf_adjacency (keys (g_node g)) (g_pred g) \<and>
      mirrors (g_succ g) (g_pred g) \<and>
      mirrors (g_pred g) (g_succ g))"

section \<open>SocialNetwork: the graph store\<close>

text \<open>
  The methods of \<open>SocialNetwork\<close> act on \<open>self.graph\<close>. A method that writes the graph
  or may raise returns its outcome together with the graph it leaves behind.

  \<open>add_user\<close> ends in \<open>self.graph.add_node(user, **attributes)\<close> and
  \<open>add_friendship\<close> in \<open>self.graph.add_edge(user1, user2, **attributes)\<close>: an
  attribute named like a positional parameter of the library's method makes the call
  raise \<open>TypeError\<close>, and the graph stays as it was.
\<close>

definition add_user :: "digraph \<Rightarrow> string \<Rightarrow> attrs option \<Rightarrow> (error + unit) \<times> digraph" where
  "add_user g user attributes =
     (let attributes1 = (case attributes of None \<Rightarrow> [] | Some a \<Rightarrow> a);
          attributes2 = (if ''name'' \<notin> set (keys attributes1)
                         then AList.update ''name'' (PStr user) attributes1
                         else attributes1)
      in if keyword_clash [''self'', ''node_for_adding''] attributes2
         then (Inl TypeError, g)
         else (Inr (), add_node g user attributes2))"

definition remove_user :: "digraph \<Rightarrow> string \<Rightarrow> (error + unit) \<times> digraph" where
  "remove_user g user =
     (if has_node g user
      then (case remove_node g user of Inl e \<Rightarrow> (Inl e, g) | Inr g' \<Rightarrow> (Inr (), g'))
      else (Inl (ValueError (''User '' @ quoted user @ '' not found'')), g))"

definition add_friendship ::
  "digraph \<Rightarrow> string \<Rightarrow> string \<Rightarrow> attrs option \<Rightarrow> (error + unit) \<times> digraph" where
  "add_friendship g user1 user2 attributes =
     (if \<not> has_node g user1
      then (Inl (ValueError (''User '' @ quoted user1 @ '' not found'')), g)
      else if \<not> has_node g user2
      then (Inl (ValueError (''User '' @ quoted user2 @ '' not found'')), g)
      else
        (let attributes1 =
               (case attributes of
                  None \<Rightarrow> [(''type'', PStr ''Friend''), (''strength'', PInt 5)]
                | Some a \<Rightarrow> a)
         in if keyword_clash [''self'', ''u_of_edge'', ''v_of_edge''] attributes1
            then (Inl TypeError, g)
            else (Inr (), add_edge g user1 user2 attributes1)))"

definition get_user_attributes :: "digraph \<Rightarrow> string \<Rightarrow> attrs" where
  "get_user_attributes g user = (if has_node g user then dict_get (g_node g) user [] else [])"

definition remove_friendship :: "digraph \<Rightarrow> string \<Rightarrow> string \<Rightarrow> (error + unit) \<times> digraph" where
  "remove_friendship g user1 user2 =
     (if has_edge g user1 user2
      then (case remove_edge g user1 user2 of Inl e \<Rightarrow> (Inl e, g) | Inr g' \<Rightarrow> (Inr (), g'))
      else (Inl (ValueError (''Relationship from '' @ quoted user1 @ '' to '' @ quoted user2
                              @ '' not found'')), g))"

text \<open>
  \<open>recommend_friends\<close> puts the successors of the user into a Python \<open>set\<close> and
  iterates over it. The order in which a set of strings is iterated depends on the
  strings' hashes; it is the parameter \<open>set_order\<close>, which lists the elements of the set
  made from a list, each once.
\<close>

definition is_set_order :: "(string list \<Rightarrow> string list) \<Rightarrow> bool" where
  "is_set_order set_order = (\<forall>xs. set (set_order xs) = set xs \<and> distinct (set_order xs))"

fun count_friends_of_friend ::
  "string \<Rightarrow> string list \<Rightarrow> (string \<times> int) list \<Rightarrow> string list \<Rightarrow> (string \<times> int) list" where
  \<comment> \<open>the inner loop: \<open>for friend_of_friend in self.graph.successors(friend)\<close>\<close>
  "count_friends_of_friend user current_friends mutual_friends [] = mutual_friends"
| "count_friends_of_friend user current_friends mutual_friends (friend_of_friend # rest) =
     count_friends_of_friend user current_friends
       (if friend_of_friend \<noteq> user \<and> friend_of_friend \<notin> set current_friends
        then AList.update friend_of_friend (dict_get mutual_friends friend_of_friend 0 + 1)
               mutual_friends
        else mutual_friends)
       rest"

fun count_mutual_friends ::
  "digraph \<Rightarrow> string \<Rightarrow> string list \<Rightarrow> (string \<times> int) list \<Rightarrow> string list
     \<Rightarrow> error + (string \<times> int) list" where
  \<comment> \<open>the outer loop: \<open>for friend in current_friends\<close>\<close>
  "count_mutual_friends g user current_friends mutual_friends [] = Inr mutual_friends"
| "count_mutual_friends g user current_friends mutual_friends (friend # rest) =
     (case successors g friend of
        Inl e \<Rightarrow> Inl e
      | Inr fofs \<Rightarrow>
          count_mutual_friends g user current_friends
            (count_friends_of_friend user current_friends mutual_friends fofs) rest)"

definition recommend_friends ::
  "(string list \<Rightarrow> string list) \<Rightarrow> digraph \<Rightarrow> string
     \<Rightarrow> (error + (string \<times> int) list) \<times> digraph" where
  "recommend_friends set_order g user =
     (if \<not> has_node g user then (Inr [], g)
      else
        (case successors g user of
           Inl e \<Rightarrow> (Inl e, g)
         | Inr succs \<Rightarrow>
             (let current_friends = set_order succs
              in (case count_mutual_friends g user current_friends [] current_friends of
                    Inl e \<Rightarrow> (Inl e, g)
                  | Inr mutual_friends \<Rightarrow>
                      \<comment> \<open>\<open>sorted(..., key=lambda x: x[1], reverse=True)\<close>: stable\<close>
                      (Inr (sort_key (\<lambda>x. - snd x) mutual_friends), g)))))"

section \<open>NetworkAnalytics: information spread\<close>

text \<open>
  \<open>random.random()\<close> returns a float in the half-open interval from 0 to 1. The draws
  made during one call of \<open>simulate_information_spread\<close> are the parameter \<open>rnd\<close>: the
  \<open>k\<close>-th call of \<open>random.random()\<close> returns \<open>rnd k\<close>; the loops pass the number of
  draws made so far along.
\<close>

definition is_random_source :: "(nat \<Rightarrow> real) \<Rightarrow> bool" where
  "is_random_source rnd = (\<forall>k. 0 \<le> rnd k \<and> rnd k < 1)"

fun spread_to_neighbors ::
  "(nat \<Rightarrow> real) \<Rightarrow> real \<Rightarrow> (string \<times> bool) list \<Rightarrow> string list \<Rightarrow> string list \<times> nat
     \<Rightarrow> error + (string list \<times> nat)" where
  \<comment> \<open>\<open>for neighbor in G.neighbors(user)\<close>\<close>
  "spread_to_neighbors rnd probability informed [] st = Inr st"
| "spread_to_neighbors rnd probability informed (neighbor # rest) (newly_informed, k) =
     (case map_of informed neighbor of
        None \<Rightarrow> Inl (KeyError neighbor)
      | Some True \<Rightarrow> spread_to_neighbors rnd probability informed rest (newly_informed, k)
      | Some False \<Rightarrow>
          (if rnd k < probability
           then spread_to_neighbors rnd probability informed rest
                  (newly_informed @ [neighbor], Suc k)
           else spread_to_neighbors rnd probability informed rest (newly_informed, Suc k)))"

fun spread_from_users ::
  "(nat \<Rightarrow> real) \<Rightarrow> real \<Rightarrow> digraph \<Rightarrow> (string \<times> bool) list \<Rightarrow> string list
     \<Rightarrow> string list \<times> nat \<Rightarrow> error + (string list \<times> nat)" where
  \<comment> \<open>\<open>for user in [u for u, has_info in informed.items() if has_info]\<close>\<close>
  "spread_from_users rnd probability g informed [] st = Inr st"
| "spread_from_users rnd probability g informed (user # rest) st =
     (case successors g user of
        Inl e \<Rightarrow> Inl e
      | Inr nbrs \<Rightarrow>
          (case spread_to_neighbors rnd probability informed nbrs st of
             Inl e \<Rightarrow> Inl e
           | Inr st' \<Rightarrow> spread_from_users rnd probability g informed rest st'))"

definition mark_informed :: "(string \<times> bool) list \<Rightarrow> string list \<Rightarrow> (string \<times> bool) list" where
  \<comment> \<open>\<open>for user in newly_informed: informed[user] = True\<close>\<close>
  "mark_informed informed newly_informed =
     foldl (\<lambda>acc user. AList.update user True acc) informed newly_informed"

fun spread_iterations ::
  "nat \<Rightarrow> (nat \<Rightarrow> real) \<Rightarrow> real \<Rightarrow> digraph \<Rightarrow> (string \<times> bool) list \<Rightarrow> nat
     \<Rightarrow> error + (string \<times> bool) list" where
  \<comment> \<open>\<open>for _ in range(iterations)\<close>, with its \<open>break\<close>\<close>
  "spread_iterations 0 rnd probability g informed k = Inr informed"
| "spread_iterations (Suc n) rnd probability g informed k =
     (case spread_from_users rnd probability g informed
             (map fst (filter snd informed)) ([], k) of
        Inl e \<Rightarrow> Inl e
      | Inr (newly_informed, k') \<Rightarrow>
          (let informed' = mark_informed informed newly_informed
           in if newly_informed = [] then Inr informed'
              else spread_iterations n rnd probability g informed' k'))"

definition simulate_information_spread ::
  "(nat \<Rightarrow> real) \<Rightarrow> digraph \<Rightarrow> string \<Rightarrow> real \<Rightarrow> int \<Rightarrow> error + (string \<times> bool) list" where
  "simulate_information_spread rnd g start_user probability iterations =
     (if \<not> has_node g start_user then Inr []
      else
        (let informed0 = map (\<lambda>user. (user, False)) (nodes g);
             informed = AList.update start_user True informed0
         in spread_iterations (nat iterations) rnd probability g informed 0))"

text \<open>
  The directed edge relation of a graph, and the nodes a seed reaches along it.
\<close>

definition edge_rel :: "digraph \<Rightarrow> (string \<times> string) set" where
  "edge_rel g = {(u, v). has_edge g u v}"

definition reachable :: "digraph \<Rightarrow> string \<Rightarrow> string \<Rightarrow> bool" where
  "reachable g s v = ((s, v) \<in> (edge_rel g)\<^sup>*)"

text \<open>
  The users a spread state marks as informed.
\<close>

definition informed_set :: "(string \<times> bool) list \<Rightarrow> string set" where
  "informed_set informed = {u. map_of informed u = Some True}"

section \<open>NetworkAnalytics: centrality and influence\<close>

text \<open>
  Python floats are modelled as real numbers: a score of the model is the exact value
  of the expression the program evaluates in doubles, and the two can differ by a
  rounding (for 50 nodes and degree 49 the program's \<open>49 * (1.0 / 49.0)\<close> is
  \<open>0.9999999999999999\<close>, the model's is 1). \<open>nx.degree_centrality\<close> is the degree of a
  node divided by the number of the other nodes; on a directed graph the degree is the
  in-degree plus the out-degree. A graph of at most one node gets the score 1. In
  outline, the library's code is
  \<^verbatim>\<open>
  def degree_centrality(G):
      if len(G) <= 1:
          return {n: 1 for n in G}
      s = 1.0 / (len(G) - 1.0)
      centrality = {n: d * s for n, d in G.degree()}
      return centrality
  \<close>
\<close>

definition degree_centrality :: "digraph \<Rightarrow> (string \<times> real) list" where
  "degree_centrality g =
     (if length (nodes g) \<le> 1 then map (\<lambda>n. (n, 1)) (nodes g)
      else
        (let s = 1 / (real (length (nodes g)) - 1)
         in map (\<lambda>n. (n, real (degree g n) * s)) (nodes g)))"

text \<open>
  The eigenvector, betweenness and closeness centralities are algorithms of the graph
  library; \<open>get_centrality_measures\<close> only calls them, each inside its own
  \<open>try\<close>/\<open>except\<close>. They are parameters: each returns a dictionary of scores or raises.
\<close>

record centrality_library =
  eigenvector_centrality :: "digraph \<Rightarrow> error + (string \<times> real) list"
  betweenness_centrality :: "digraph \<Rightarrow> error + (string \<times> real) list"
  closeness_centrality :: "digraph \<Rightarrow> error + (string \<times> real) list"

record centrality =
  degree_c :: real
  eigenvector_c :: real
  betweenness_c :: real
  closeness_c :: real

definition or_zeros :: "digraph \<Rightarrow> error + (string \<times> real) list \<Rightarrow> (string \<times> real) list" where
  \<comment> \<open>\<open>try: ... except: {node: 0.0 for node in G.nodes()}\<close>\<close>
  "or_zeros g r = (case r of Inl e \<Rightarrow> map (\<lambda>node. (node, 0)) (nodes g) | Inr m \<Rightarrow> m)"

definition get_centrality_measures ::
  "centrality_library \<Rightarrow> digraph \<Rightarrow> (string \<times> centrality) list" where
  "get_centrality_measures lib g =
     (if length (nodes g) = 0 then []
      else
        (let degree_centrality' = degree_centrality g;
             eigenvector_centrality' = or_zeros g (eigenvector_centrality lib g);
             betweenness_centrality' = or_zeros g (betweenness_centrality lib g);
             closeness_centrality' = or_zeros g (closeness_centrality lib g)
         in map (\<lambda>node.
                  (node,
                   \<lparr>degree_c = dict_get degree_centrality' node 0,
                    eigenvector_c = dict_get eigenvector_centrality' node 0,
                    betweenness_c = dict_get betweenness_centrality' node 0,
                    closeness_c = dict_get closeness_centrality' node 0\<rparr>))
              (nodes g)))"

definition get_user_centrality :: "centrality_library \<Rightarrow> digraph \<Rightarrow> string \<Rightarrow> centrality" where
  "get_user_centrality lib g user =
     dict_get (get_centrality_measures lib g) user
       \<lparr>degree_c = 0, eigenvector_c = 0, betweenness_c = 0, closeness_c = 0\<rparr>"

definition calculate_influence_score :: "centrality_library \<Rightarrow> digraph \<Rightarrow> string \<Rightarrow> real" where
  "calculate_influence_score lib g user =
     (if \<not> has_node g user then 0
      else
        (let centrality = get_user_centrality lib g user;
             weights = [(degree_c, 3 / 10), (eigenvector_c, 3 / 10),
                        (betweenness_c, 3 / 10), (closeness_c, 1 / 10)];
             score = sum_list (map (\<lambda>(measure, weight). measure centrality * weight) weights);
             max_possible_score = sum_list (map snd weights)
         in score / max_possible_score))"

section \<open>The undirected projection and its components\<close>

text \<open>
  \<open>G.to_undirected()\<close> builds a \<open>networkx.Graph\<close>: the node dictionary and one
  symmetric adjacency dictionary. As with the directed graph, the class is modelled from
  the library's documented behaviour.
\<close>

record ugraph =
  u_node :: "(string \<times> attrs) list"
  u_adj :: adjacency

definition empty_ugraph :: ugraph where
  "empty_ugraph = \<lparr>u_node = [], u_adj = []\<rparr>"

definition u_nodes :: "ugraph \<Rightarrow> string list" where
  "u_nodes G = keys (u_node G)"

definition u_add_node :: "ugraph \<Rightarrow> string \<Rightarrow> attrs \<Rightarrow> ugraph" where
  "u_add_node G n attr =
     (if n \<notin> set (keys (u_adj G))
      then G\<lparr>u_adj := AList.update n [] (u_adj G),
             u_node := AList.update n (dict_update [] attr) (u_node G)\<rparr>
      else G\<lparr>u_node := AList.update n (dict_update (dict_get (u_node G) n []) attr) (u_node G)\<rparr>)"

definition u_ensure_node :: "ugraph \<Rightarrow> string \<Rightarrow> ugraph" where
  "u_ensure_node G n =
     (if n \<notin> set (keys (u_adj G))
      then G\<lparr>u_adj := AList.update n [] (u_adj G), u_node := AList.update n [] (u_node G)\<rparr>
      else G)"

definition u_add_edge :: "ugraph \<Rightarrow> string \<Rightarrow> string \<Rightarrow> attrs \<Rightarrow> ugraph" where
  \<comment> \<open>\<open>self._adj[u][v] = datadict; self._adj[v][u] = datadict\<close>\<close>
  "u_add_edge G u v attr =
     (let G1 = u_ensure_node (u_ensure_node G u) v;
          datadict = dict_update (dict_get (adj_of (u_adj G1) u) v []) attr;
          a1 = AList.update u (AList.update v datadict (adj_of (u_adj G1) u)) (u_adj G1);
          a2 = AList.update v (AList.update u datadict (adj_of a1 v)) a1
      in G1\<lparr>u_adj := a2\<rparr>)"

definition u_remove_edge :: "ugraph \<Rightarrow> string \<Rightarrow> string \<Rightarrow> error + ugraph" where
  \<comment> \<open>\<open>del self._adj[u][v]\<close>, and \<open>del self._adj[v][u]\<close> unless it is a self-loop\<close>
  "u_remove_edge G u v =
     (if v \<in> set (keys (adj_of (u_adj G) u)) \<and> (u = v \<or> u \<in> set (keys (adj_of (u_adj G) v)))
      then
        (let a1 = AList.update u (AList.delete v (adj_of (u_adj G) u)) (u_adj G);
             a2 = (if u \<noteq> v then AList.update v (AList.delete u (adj_of a1 v)) a1 else a1)
         in Inr (G\<lparr>u_adj := a2\<rparr>))
      else Inl (NetworkXError (''The edge '' @ u @ ''-'' @ v @ '' is not in the graph'')))"

definition edge_triples :: "adjacency \<Rightarrow> (string \<times> string \<times> attrs) list" where
  \<comment> \<open>\<open>(u, v, d) for u, nbrs in self._adj.items() for v, d in nbrs.items()\<close>\<close>
  "edge_triples a = concat (map (\<lambda>e. map (\<lambda>f. (fst e, fst f, snd f)) (snd e)) a)"

definition to_undirected :: "digraph \<Rightarrow> ugraph" where
  "to_undirected g =
     (let G0 = foldl (\<lambda>G nd. u_add_node G (fst nd) (snd nd)) empty_ugraph (g_node g)
      in foldl (\<lambda>G e. u_add_edge G (fst e) (fst (snd e)) (snd (snd e))) G0
           (edge_triples (g_succ g)))"

definition u_degree :: "ugraph \<Rightarrow> string \<Rightarrow> nat" where
  \<comment> \<open>a self-loop counts twice\<close>
  "u_degree G n =
     length (adj_of (u_adj G) n) + (if n \<in> set (keys (adj_of (u_adj G) n)) then 1 else 0)"

definition number_of_edges :: "ugraph \<Rightarrow> nat" where
  \<comment> \<open>\<open>G.number_of_edges()\<close>: half the sum of the degrees\<close>
  "number_of_edges G = sum_list (map (u_degree G) (u_nodes G)) div 2"

text \<open>
  The library finds a connected component by a breadth-first search from a node, level
  by level. Every level that is searched adds a node that was not seen before, so there
  are at most as many levels as nodes: the search is run with that bound. In outline,
  the library's code is
  \<^verbatim>\<open>
  def _plain_bfs(G, source):
      seen = {source}
      nextlevel = [source]
      while nextlevel:
          thislevel = nextlevel
          nextlevel = []
          for v in thislevel:
              for w in G._adj[v]:
                  if w not in seen:
                      seen.add(w)
                      nextlevel.append(w)
      return seen

  def connected_components(G):
      seen = set()
      for v in G:
          if v not in seen:
              c = _plain_bfs(G, v)
              seen.update(c)
              yield c

  def is_connected(G):
      if len(G) == 0:
          raise nx.NetworkXPointlessConcept(
              "Connectivity is undefined for the null graph.")
      return sum(1 for node in _plain_bfs(G, arbitrary_element(G))) == len(G)
  \<close>
  A component is a Python set; here it is the list of its nodes in the order the search
  finds them.
\<close>

fun bfs_neighbors :: "string list \<Rightarrow> string list \<times> string list \<Rightarrow> string list \<times> string list" where
  \<comment> \<open>\<open>for w in adj[v]: if w not in seen: seen.add(w); nextlevel.append(w)\<close>\<close>
  "bfs_neighbors [] st = st"
| "bfs_neighbors (w # ws) (seen, nextlevel) =
     (if w \<notin> set seen then bfs_neighbors ws (seen @ [w], nextlevel @ [w])
      else bfs_neighbors ws (seen, nextlevel))"

fun bfs_level :: "adjacency \<Rightarrow> string list \<Rightarrow> string list \<times> string list
    \<Rightarrow> string list \<times> string list" where
  \<comment> \<open>\<open>for v in thislevel\<close>\<close>
  "bfs_level a [] st = st"
| "bfs_level a (v # vs) st = bfs_level a vs (bfs_neighbors (keys (adj_of a v)) st)"

fun bfs_levels :: "nat \<Rightarrow> adjacency \<Rightarrow> string list \<Rightarrow> string list \<Rightarrow> string list" where
  \<comment> \<open>\<open>while nextlevel\<close>\<close>
  "bfs_levels 0 a nextlevel seen = seen"
| "bfs_levels (Suc n) a nextlevel seen =
     (if nextlevel = [] then seen
      else
        (case bfs_level a nextlevel (seen, []) of
           (seen', nextlevel') \<Rightarrow> bfs_levels n a nextlevel' seen'))"

definition plain_bfs :: "ugraph \<Rightarrow> string \<Rightarrow> string list" where
  "plain_bfs G source = bfs_levels (length (u_nodes G)) (u_adj G) [source] [source]"

fun components_from :: "ugraph \<Rightarrow> string list \<Rightarrow> string list \<Rightarrow> string list list" where
  \<comment> \<open>\<open>for v in G: if v not in seen: c = _plain_bfs(G, v); seen.update(c); yield c\<close>\<close>
  "components_from G [] seen = []"
| "components_from G (v # vs) seen =
     (if v \<notin> set seen
      then (let c = plain_bfs G v in c # components_from G vs (seen @ c))
      else components_from G vs seen)"

definition connected_components :: "ugraph \<Rightarrow> string list list" where
  "connected_components G = components_from G (u_nodes G) []"

definition is_connected :: "ugraph \<Rightarrow> error + bool" where
  \<comment> \<open>\<open>nx.is_connected\<close>: the null graph has no answer\<close>
  "is_connected G =
     (case u_nodes G of
        [] \<Rightarrow> Inl (NetworkXPointlessConcept ''Connectivity is undefined for the null graph.'')
      | source # rest \<Rightarrow> Inr (length (plain_bfs G source) = length (u_nodes G)))"

section \<open>NetworkAnalytics: connectivity\<close>

text \<open>
  The format \<open>.2f\<close> writes a number with two decimals, rounding to the nearest
  hundredth and a tie to the even one. The percentages formatted here are not negative.
\<close>

definition digit_char :: "nat \<Rightarrow> char" where
  "digit_char d = ''0123456789'' ! (d mod 10)"

fun decimal :: "nat \<Rightarrow> string" where
  "decimal n = (if n < 10 then [digit_char n] else decimal (n div 10) @ [digit_char n])"

definition round_half_even :: "real \<Rightarrow> int" where
  "round_half_even x =
     (let f = \<lfloor>x\<rfloor>
      in if x - of_int f < 1 / 2 then f
         else if 1 / 2 < x - of_int f then f + 1
         else if even f then f else f + 1)"

definition format_2f :: "real \<Rightarrow> string" where
  "format_2f x =
     (let c = nat (round_half_even (x * 100))
      in decimal (c div 100) @ ''.'' @ [digit_char (c div 10), digit_char c])"

record connectivity =
  connected :: bool
  number_of_components :: nat
  largest_component_size :: nat
  largest_component_percentage :: string
  component_sizes :: "nat list"

definition get_connectivity_data :: "digraph \<Rightarrow> error + connectivity" where
  "get_connectivity_data g =
     (let undirected = to_undirected g
      in (case is_connected undirected of
            Inl e \<Rightarrow> Inl e
          | Inr is_connected' \<Rightarrow>
              (let components = connected_components undirected;
                   component_sizes' = map length components;
                   largest = (if component_sizes' \<noteq> [] then Max (set component_sizes') else 0);
                   percentage =
                     (if length (nodes g) > 0
                      then (real largest / real (length (nodes g))) * 100 else 0)
               in Inr \<lparr>connected = is_connected',
                       number_of_components = length components,
                       largest_component_size = largest,
                       largest_component_percentage = format_2f percentage @ ''%'',
                       component_sizes = component_sizes'\<rparr>)))"

section \<open>Facts about dictionaries\<close>

lemma in_keys_iff: "k \<in> set (keys d) \<longleftrightarrow> map_of d k \<noteq> None"
  by (simp add: keys_def map_of_eq_None_iff)

lemma keys_update: "set (keys (AList.update k v d)) = insert k (set (keys d))"
  using AList.dom_update [of k v d] by (simp add: keys_def)

lemma distinct_keys_update: "distinct (keys d) \<Longrightarrow> distinct (keys (AList.update k v d))"
  by (simp add: keys_def AList.distinct_update)

lemma keys_update_present:
  "k \<in> set (keys d) \<Longrightarrow> keys (AList.update k v d) = keys d"
  by (simp add: keys_def AList.update_keys)

lemma map_of_dict_update:
  "map_of (dict_update d other) k =
     (case map_of (rev other) k of Some v \<Rightarrow> Some v | None \<Rightarrow> map_of d k)"
  unfolding dict_update_def
proof (induction other arbitrary: d)
  case Nil
  then show ?case by simp
next
  case (Cons x xs)
  show ?case
    by (simp add: Cons.IH AList.update_conv' map_add_def split: option.splits)
qed

lemma dict_get_update_same: "dict_get (AList.update k v d) k dflt = v"
  by (simp add: dict_get_def AList.update_conv')

lemma dict_get_update_other: "k' \<noteq> k \<Longrightarrow> dict_get (AList.update k v d) k' dflt = dict_get d k' dflt"
  by (simp add: dict_get_def AList.update_conv')

lemma update_absent: "k \<notin> set (keys al) \<Longrightarrow> AList.update k v al = al @ [(k, v)]"
  by (induction al) (auto simp: keys_def)

section \<open>SocialNetwork: community detection\<close>

text \<open>
  \<open>detect_communities\<close> hands the undirected projection to one of the library's
  algorithms. Greedy modularity, label propagation and Louvain's \<open>best_partition\<close> are
  parameters, as is the choice of the edge of highest betweenness inside Girvan-Newman;
  \<open>best_partition\<close> is absent when the package that provides it is not installed and
  the \<open>import\<close> raises; an \<open>ImportError\<close> from the call itself is caught by the same
  \<open>except ImportError\<close>.
\<close>

record community_library =
  most_valuable_edge :: "ugraph \<Rightarrow> error + (string \<times> string)"
  greedy_modularity_communities :: "ugraph \<Rightarrow> error + string list list"
  label_propagation_communities :: "ugraph \<Rightarrow> error + string list list"
  best_partition :: "(ugraph \<Rightarrow> error + (string \<times> int) list) option"

definition adjacency_size :: "adjacency \<Rightarrow> nat" where
  "adjacency_size a = sum_list (map (\<lambda>e. length (snd e)) a)"

definition remove_selfloops :: "ugraph \<Rightarrow> ugraph" where
  \<comment> \<open>\<open>g.remove_edges_from(nx.selfloop_edges(g))\<close>\<close>
  "remove_selfloops G = G\<lparr>u_adj := map (\<lambda>e. (fst e, AList.delete (fst e) (snd e))) (u_adj G)\<rparr>"

text \<open>
  The library's Girvan-Newman generator is, in outline,
  \<^verbatim>\<open>
  def girvan_newman(G, most_valuable_edge=None):
      if G.number_of_edges() == 0:
          yield tuple(nx.connected_components(G))
          return
      (most_valuable_edge defaults to the edge of highest betweenness)
      g = G.copy().to_undirected()
      g.remove_edges_from(nx.selfloop_edges(g))
      while g.number_of_edges() > 0:
          yield _without_most_central_edges(g, most_valuable_edge)

  def _without_most_central_edges(G, most_valuable_edge):
      original_num_components = nx.number_connected_components(G)
      num_new_components = original_num_components
      while num_new_components <= original_num_components:
          edge = most_valuable_edge(G)
          G.remove_edge(*edge)
          new_components = tuple(nx.connected_components(G))
          num_new_components = len(new_components)
      return new_components
  \<close>
  In \<open>_without_most_central_edges\<close> edges are removed, the most valuable first, until
  the graph has more components than it had; every round removes an edge or raises.
\<close>

function without_most_central_edges ::
  "community_library \<Rightarrow> nat \<Rightarrow> ugraph \<Rightarrow> error + string list list" where
  "without_most_central_edges lib original_num_components G =
     (case most_valuable_edge lib G of
        Inl e \<Rightarrow> Inl e
      | Inr edge \<Rightarrow>
          (case u_remove_edge G (fst edge) (snd edge) of
             Inl e \<Rightarrow> Inl e
           | Inr G' \<Rightarrow>
               (if length (connected_components G') \<le> original_num_components
                then without_most_central_edges lib original_num_components G'
                else Inr (connected_components G'))))"
  by pat_completeness auto

lemma adjacency_size_update:
  "map_of a k = Some old \<Longrightarrow>
   adjacency_size (AList.update k new a) + length old = adjacency_size a + length new"
  by (induction a) (auto simp: adjacency_size_def)

lemma length_delete_le: "length (AList.delete k al) \<le> length al"
  by (simp add: AList.delete_eq)

lemma length_delete_less:
  "k \<in> set (keys al) \<Longrightarrow> length (AList.delete k al) < length al"
proof -
  assume "k \<in> set (keys al)"
  then obtain v where "(k, v) \<in> set al" by (auto simp: keys_def)
  then show ?thesis
    unfolding AList.delete_eq by (rule length_filter_less) simp
qed

lemma adj_of_keys_present:
  assumes "v \<in> set (keys (adj_of a u))"
  obtains old where "map_of a u = Some old" "adj_of a u = old"
  using assms by (cases "map_of a u") (auto simp: adj_of_def dict_get_def keys_def)

lemma adjacency_size_delete_le:
  "adjacency_size (AList.update u (AList.delete v (adj_of a u)) a) \<le> adjacency_size a
   \<or> map_of a u = None"
proof (cases "map_of a u")
  case None
  then show ?thesis by simp
next
  case (Some old)
  then have "adj_of a u = old" by (simp add: adj_of_def dict_get_def)
  with adjacency_size_update [OF Some, of "AList.delete v old"] length_delete_le [of v old]
  show ?thesis by simp
qed

lemma u_remove_edge_decreases:
  assumes "u_remove_edge G u v = Inr G'"
  shows "adjacency_size (u_adj G') < adjacency_size (u_adj G)"
proof -
  let ?a = "u_adj G"
  let ?a1 = "AList.update u (AList.delete v (adj_of ?a u)) ?a"
  from assms have k: "v \<in> set (keys (adj_of ?a u))"
    and G': "G' = G\<lparr>u_adj := (if u \<noteq> v then AList.update v (AList.delete u (adj_of ?a1 v)) ?a1
                                else ?a1)\<rparr>"
    by (auto simp: u_remove_edge_def Let_def split: if_splits)
  from k obtain old where old: "map_of ?a u = Some old" "adj_of ?a u = old"
    by (rule adj_of_keys_present)
  from k old have "length (AList.delete v old) < length old"
    by (simp add: length_delete_less)
  with adjacency_size_update [OF old(1), of "AList.delete v old"] old(2)
  have l1: "adjacency_size ?a1 < adjacency_size ?a" by simp
  show ?thesis
  proof (cases "u = v")
    case True
    then show ?thesis using G' l1 by simp
  next
    case False
    have "map_of ?a1 v = map_of ?a v" using False by (simp add: AList.update_conv')
    have "adjacency_size (AList.update v (AList.delete u (adj_of ?a1 v)) ?a1) \<le> adjacency_size ?a1"
    proof (cases "map_of ?a1 v")
      case None
      then have "adj_of ?a1 v = []" by (simp add: adj_of_def dict_get_def)
      moreover from None have "v \<notin> set (keys ?a1)" by (simp add: in_keys_iff)
      ultimately show ?thesis
        by (simp add: update_absent AList.delete_eq adjacency_size_def)
    next
      case (Some old1)
      then show ?thesis using adjacency_size_delete_le [of v u ?a1] by simp
    qed
    then show ?thesis using G' False l1 by simp
  qed
qed

termination without_most_central_edges
  by (relation "measure (\<lambda>(lib, n, G). adjacency_size (u_adj G))")
     (auto simp: u_remove_edge_decreases)

definition girvan_newman_first :: "community_library \<Rightarrow> ugraph \<Rightarrow> error + string list list" where
  \<comment> \<open>\<open>next(girvan_newman(G))\<close>: the first partition the generator yields. A graph
      without edges yields its components; otherwise the self-loops are removed and a
      partition is yielded as long as edges are left; a generator that ends without
      yielding makes \<open>next\<close> raise \<open>StopIteration\<close>\<close>
  "girvan_newman_first lib G =
     (if number_of_edges G = 0 then Inr (connected_components G)
      else
        (let g = remove_selfloops G
         in if number_of_edges g > 0
            then without_most_central_edges lib (length (connected_components g)) g
            else Inl StopIteration))"

definition group_by_community :: "(string \<times> int) list \<Rightarrow> string list list" where
  \<comment> \<open>\<open>for node, community_id in partition.items():
        communities[community_id].append(node)\<close>, then \<open>list(communities.values())\<close>\<close>
  "group_by_community partition' =
     map snd
       (foldl (\<lambda>communities nc.
                 AList.update (snd nc) (dict_get communities (snd nc) [] @ [fst nc]) communities)
          [] partition')"

definition detect_communities ::
  "community_library \<Rightarrow> digraph \<Rightarrow> string \<Rightarrow> error + string list list" where
  "detect_communities lib g method =
     (let undirected = to_undirected g
      in if method = ''girvan_newman'' then girvan_newman_first lib undirected
         else if method = ''greedy_modularity''
         then greedy_modularity_communities lib undirected
         else if method = ''label_propagation''
         then label_propagation_communities lib undirected
         else if method = ''louvain''
         then (case best_partition lib of
                 None \<Rightarrow> greedy_modularity_communities lib undirected
               | Some best_partition' \<Rightarrow>
                   (case best_partition' undirected of
                      Inl ImportError \<Rightarrow> greedy_modularity_communities lib undirected
                    | Inl e \<Rightarrow> Inl e
                    | Inr partition' \<Rightarrow> Inr (group_by_community partition')))
         else girvan_newman_first lib undirected)"

text \<open>
  A sequence of communities is a partition of a graph's nodes: every node is in a
  community, no community holds anything else, and no node is in two places.
\<close>

definition is_partition_of :: "string list list \<Rightarrow> string list \<Rightarrow> bool" where
  "is_partition_of communities ns =
     (set (concat communities) = set ns \<and> distinct (concat communities))"

text \<open>
  One user who is their own friend: the only edge is a self-loop.
\<close>

definition example_selfloop :: digraph where
  "example_selfloop =
     snd (add_friendship (snd (add_user empty_digraph ''A'' None)) ''A'' ''A'' None)"

text \<open>
  The number of handles in \<open>fs\<close> that have \<open>c\<close> as a direct successor.
\<close>

definition mutual_total :: "digraph \<Rightarrow> string list \<Rightarrow> string \<Rightarrow> nat" where
  "mutual_total g fs c = length (filter (\<lambda>f. has_edge g f c) fs)"

section \<open>Example graphs\<close>

text \<open>
  The three-user chain \<open>A \<rightarrow> B \<rightarrow> C\<close>, built through the graph store's own
  operations.
\<close>

definition example_chain :: digraph where
  "example_chain =
     snd (add_friendship
       (snd (add_friendship
          (snd (add_user (snd (add_user (snd (add_user empty_digraph ''A'' None)) ''B'' None))
             ''C'' None))
          ''A'' ''B'' None))
       ''B'' ''C'' None)"


text \<open>
  Two users who are each other's friend: \<open>A \<rightarrow> B\<close> and \<open>B \<rightarrow> A\<close>.
\<close>

definition example_mutual :: digraph where
  "example_mutual =
     snd (add_friendship
       (snd (add_friendship
          (snd (add_user (snd (add_user empty_digraph ''A'' None)) ''B'' None))
          ''A'' ''B'' None))
       ''B'' ''A'' None)"

text \<open>
  The scores of the library's three algorithms on \<open>example_mutual\<close>, where both users
  are alike: eigenvector centrality \<open>1 / sqrt 2\<close>, betweenness 0, closeness 1.
\<close>

definition example_mutual_library :: centrality_library where
  "example_mutual_library =
     \<lparr>eigenvector_centrality = (\<lambda>g. Inr [(''A'', 1 / sqrt 2), (''B'', 1 / sqrt 2)]),
      betweenness_centrality = (\<lambda>g. Inr [(''A'', 0), (''B'', 0)]),
      closeness_centrality = (\<lambda>g. Inr [(''A'', 1), (''B'', 1)])\<rparr>"

text \<open>
  A star of mutual friendships: \<open>A\<close> and \<open>B\<close> are each other's friend, and so are
  \<open>A\<close> and \<open>C\<close>.
\<close>

definition example_star :: digraph where
  "example_star =
     snd (add_friendship
       (snd (add_friendship
         (snd (add_friendship
           (snd (add_friendship
             (snd (add_user (snd (add_user (snd (add_user empty_digraph ''A'' None))
                ''B'' None)) ''C'' None))
             ''A'' ''B'' None))
           ''B'' ''A'' None))
         ''A'' ''C'' None))
       ''C'' ''A'' None)"

text \<open>
  A user added with an age, then added again with a bio.
\<close>

definition example_readded :: digraph where
  "example_readded =
     snd (add_user (snd (add_user empty_digraph ''A'' (Some [(''age'', PInt 30)])))
       ''A'' (Some [(''bio'', PStr ''x'')]))"

definition effective_attributes :: "string \<Rightarrow> attrs option \<Rightarrow> attrs" where
  \<comment> \<open>the attributes \<open>add_user\<close> hands to the graph: the given ones, with the
      handle as name when they have no name\<close>
  "effective_attributes user attributes =
     (let a = (case attributes of None \<Rightarrow> [] | Some a \<Rightarrow> a)
      in if ''name'' \<notin> set (keys a) then AList.update ''name'' (PStr user) a else a)"
section \<open>Well-formed graphs\<close>


lemma wf_empty_digraph: "wf_digraph empty_digraph"
  by (simp add: wf_digraph_def empty_digraph_def keys_def wf_adjacency_def mirrors_def)

lemma wf_succ_entry:
  assumes "wf_digraph g" "has_node g u"
  obtains nbrs where "map_of (g_succ g) u = Some nbrs" "distinct (keys nbrs)"
    "set (keys nbrs) \<subseteq> set (nodes g)"
proof -
  from assms have "u \<in> set (keys (g_succ g))"
    by (simp add: wf_digraph_def has_node_def)
  then obtain nbrs where m: "map_of (g_succ g) u = Some nbrs"
    by (auto simp: in_keys_iff)
  then have "(u, nbrs) \<in> set (g_succ g)" by (rule map_of_SomeD)
  with assms(1) have "distinct (keys nbrs) \<and> set (keys nbrs) \<subseteq> set (nodes g)"
    by (force simp: wf_digraph_def wf_adjacency_def nodes_def)
  with m that show ?thesis by blast
qed

lemma has_edge_iff:
  "has_edge g u v \<longleftrightarrow> (\<exists>nbrs. map_of (g_succ g) u = Some nbrs \<and> v \<in> set (keys nbrs))"
  by (auto simp: has_edge_def split: option.splits)

lemma successors_wf:
  assumes "wf_digraph g" "has_node g u"
  obtains nbrs where "successors g u = Inr nbrs" "distinct nbrs" "set nbrs \<subseteq> set (nodes g)"
    "\<And>v. v \<in> set nbrs \<longleftrightarrow> has_edge g u v"
proof -
  from assms obtain a where a: "map_of (g_succ g) u = Some a" "distinct (keys a)"
    "set (keys a) \<subseteq> set (nodes g)" by (rule wf_succ_entry)
  then have "successors g u = Inr (keys a)" by (simp add: successors_def)
  moreover have "\<And>v. v \<in> set (keys a) \<longleftrightarrow> has_edge g u v"
    using a(1) by (simp add: has_edge_iff)
  ultimately show ?thesis using a that by blast
qed

lemma has_edge_target_node:
  assumes "wf_digraph g" "has_edge g u v"
  shows "has_node g v" "has_node g u"
proof -
  from assms(2) obtain nbrs where m: "map_of (g_succ g) u = Some nbrs" "v \<in> set (keys nbrs)"
    by (auto simp: has_edge_iff)
  then have "(u, nbrs) \<in> set (g_succ g)" by (auto dest: map_of_SomeD)
  with assms(1) m(2) show "has_node g v"
    by (force simp: wf_digraph_def wf_adjacency_def has_node_def)
  from m(1) have "u \<in> set (keys (g_succ g))" by (simp add: in_keys_iff)
  with assms(1) show "has_node g u" by (simp add: wf_digraph_def has_node_def)
qed

section \<open>Adding a friendship with a missing endpoint\<close>

text \<open>
  C3. For every graph and every ordered pair of handles of which at least one is not a
  node, \<open>add_friendship\<close> raises the not-found \<open>ValueError\<close>, naming the first missing
  handle, and the graph it leaves behind is the graph it was given.
\<close>

theorem add_friendship_missing_endpoint:
  assumes "\<not> has_node g user1 \<or> \<not> has_node g user2"
  shows "add_friendship g user1 user2 attributes =
           (Inl (ValueError (''User '' @ quoted (if has_node g user1 then user2 else user1)
                               @ '' not found'')), g)"
  using assms by (auto simp: add_friendship_def)

theorem add_friendship_missing_endpoint_witness:
  "has_node (snd (add_user empty_digraph ''A'' None)) ''A''
   \<and> \<not> has_node (snd (add_user empty_digraph ''A'' None)) ''B''
   \<and> add_friendship (snd (add_user empty_digraph ''A'' None)) ''A'' ''B'' None =
       (Inl (ValueError ''User 'B' not found''), snd (add_user empty_digraph ''A'' None))"
proof -
  have b: "\<not> has_node (snd (add_user empty_digraph ''A'' None)) ''B''"
    by code_simp
  have a: "has_node (snd (add_user empty_digraph ''A'' None)) ''A''"
    by code_simp
  from b have h: "\<not> has_node (snd (add_user empty_digraph ''A'' None)) ''A''
                   \<or> \<not> has_node (snd (add_user empty_digraph ''A'' None)) ''B''"
    by simp
  show ?thesis
    using a b add_friendship_missing_endpoint [OF h, of None]
    by (simp add: quoted_def)
qed

section \<open>Adding a user\<close>

lemma add_user_effective:
  "add_user g user attributes =
     (if keyword_clash [''self'', ''node_for_adding''] (effective_attributes user attributes)
      then (Inl TypeError, g)
      else (Inr (), add_node g user (effective_attributes user attributes)))"
  by (simp add: add_user_def effective_attributes_def Let_def)

lemma effective_attributes_name:
  "''name'' \<notin> set (keys (case attributes of None \<Rightarrow> [] | Some a \<Rightarrow> a)) \<Longrightarrow>
   map_of (rev (effective_attributes user attributes)) ''name'' = Some (PStr user)"
  by (simp add: effective_attributes_def Let_def update_absent)

lemma add_node_attributes:
  assumes "wf_digraph g"
  shows "has_node (add_node g user a) user"
    and "get_user_attributes (add_node g user a) user = dict_update (get_user_attributes g user) a"
    and "has_node g user \<Longrightarrow>
           nodes (add_node g user a) = nodes g \<and> g_succ (add_node g user a) = g_succ g \<and>
           g_pred (add_node g user a) = g_pred g"
    and "v \<noteq> user \<Longrightarrow> get_user_attributes (add_node g user a) v = get_user_attributes g v"
    and "\<not> has_node g user \<Longrightarrow>
           nodes (add_node g user a) = nodes g @ [user] \<and>
           g_succ (add_node g user a) = g_succ g @ [(user, [])] \<and>
           g_pred (add_node g user a) = g_pred g @ [(user, [])]"
proof -
  from assms have ks: "keys (g_succ g) = keys (g_node g)" by (simp add: wf_digraph_def)
  show hn: "has_node (add_node g user a) user"
    by (simp add: add_node_def has_node_def keys_update)
  show "get_user_attributes (add_node g user a) user = dict_update (get_user_attributes g user) a"
  proof (cases "has_node g user")
    case True
    then show ?thesis
      using hn ks
      by (simp add: get_user_attributes_def add_node_def has_node_def dict_get_update_same)
  next
    case False
    then show ?thesis
      using hn ks
      by (simp add: get_user_attributes_def add_node_def has_node_def dict_get_update_same)
  qed
  show "has_node g user \<Longrightarrow>
           nodes (add_node g user a) = nodes g \<and> g_succ (add_node g user a) = g_succ g \<and>
           g_pred (add_node g user a) = g_pred g"
    using ks by (simp add: add_node_def has_node_def nodes_def keys_update_present)
  show "v \<noteq> user \<Longrightarrow> get_user_attributes (add_node g user a) v = get_user_attributes g v"
    by (simp add: get_user_attributes_def add_node_def has_node_def keys_update
        dict_get_update_other)
  from assms have kp: "keys (g_pred g) = keys (g_node g)" by (simp add: wf_digraph_def)
  show "\<not> has_node g user \<Longrightarrow>
           nodes (add_node g user a) = nodes g @ [user] \<and>
           g_succ (add_node g user a) = g_succ g @ [(user, [])] \<and>
           g_pred (add_node g user a) = g_pred g @ [(user, [])]"
    using ks kp
    by (simp add: add_node_def has_node_def nodes_def update_absent keys_def)
qed

text \<open>
  C6 (as the code has it). When the attributes handed over, the name included, have a
  key \<open>self\<close> or \<open>node_for_adding\<close>, \<open>add_user\<close> raises \<open>TypeError\<close> and the graph is
  as it was. Otherwise \<open>add_user\<close> returns normally and makes the handle a node (a
  new node comes last and has no edges); when
  the attributes have no name, it stores the handle as name. The attributes handed over
  update the node's attribute dictionary: every supplied key, and the name, takes the new
  value, and a key that is not supplied keeps the value it had. Adding an existing handle
  again changes neither the nodes nor the edges, and no call touches the attributes of
  another user.
\<close>

theorem add_user_updates_attributes:
  assumes "wf_digraph g"
  shows "(keyword_clash [''self'', ''node_for_adding''] (effective_attributes user attributes)
            \<longrightarrow> add_user g user attributes = (Inl TypeError, g)) \<and>
         (\<not> keyword_clash [''self'', ''node_for_adding''] (effective_attributes user attributes)
            \<longrightarrow>
            fst (add_user g user attributes) = Inr () \<and>
            has_node (snd (add_user g user attributes)) user \<and>
            get_user_attributes (snd (add_user g user attributes)) user =
              dict_update (get_user_attributes g user) (effective_attributes user attributes) \<and>
            (\<forall>k. map_of (get_user_attributes (snd (add_user g user attributes)) user) k =
                  (case map_of (rev (effective_attributes user attributes)) k of
                     Some v \<Rightarrow> Some v
                   | None \<Rightarrow> map_of (get_user_attributes g user) k)) \<and>
            (''name'' \<notin> set (keys (case attributes of None \<Rightarrow> [] | Some a \<Rightarrow> a)) \<longrightarrow>
               map_of (get_user_attributes (snd (add_user g user attributes)) user) ''name''
                 = Some (PStr user)) \<and>
            (distinct (keys (effective_attributes user attributes)) \<longrightarrow>
               (\<forall>kv \<in> set (effective_attributes user attributes).
                  map_of (get_user_attributes (snd (add_user g user attributes)) user) (fst kv)
                    = Some (snd kv))) \<and>
            (has_node g user \<longrightarrow>
               nodes (snd (add_user g user attributes)) = nodes g \<and>
               g_succ (snd (add_user g user attributes)) = g_succ g \<and>
               g_pred (snd (add_user g user attributes)) = g_pred g) \<and>
            (\<not> has_node g user \<longrightarrow>
               nodes (snd (add_user g user attributes)) = nodes g @ [user] \<and>
               g_succ (snd (add_user g user attributes)) = g_succ g @ [(user, [])] \<and>
               g_pred (snd (add_user g user attributes)) = g_pred g @ [(user, [])]) \<and>
            (\<forall>v. v \<noteq> user \<longrightarrow>
               get_user_attributes (snd (add_user g user attributes)) v
                 = get_user_attributes g v))"
proof (intro conjI impI)
  assume "keyword_clash [''self'', ''node_for_adding''] (effective_attributes user attributes)"
  then show "add_user g user attributes = (Inl TypeError, g)"
    by (simp add: add_user_effective)
next
  let ?a = "effective_attributes user attributes"
  let ?g = "snd (add_user g user attributes)"
  assume nc: "\<not> keyword_clash [''self'', ''node_for_adding''] ?a"
  then have g': "?g = add_node g user ?a" and ok: "fst (add_user g user attributes) = Inr ()"
    by (simp_all add: add_user_effective)
  have hn: "has_node ?g user" unfolding g' by (rule add_node_attributes(1) [OF assms])
  have ga: "get_user_attributes ?g user = dict_update (get_user_attributes g user) ?a"
    unfolding g' by (rule add_node_attributes(2) [OF assms])
  have same: "has_node g user \<longrightarrow>
            nodes ?g = nodes g \<and> g_succ ?g = g_succ g \<and> g_pred ?g = g_pred g"
    unfolding g' using add_node_attributes(3) [OF assms] by blast
  have others: "\<forall>v. v \<noteq> user \<longrightarrow> get_user_attributes ?g v = get_user_attributes g v"
    unfolding g' using add_node_attributes(4) [OF assms] by blast
  have name: "''name'' \<notin> set (keys (case attributes of None \<Rightarrow> [] | Some a \<Rightarrow> a)) \<longrightarrow>
            map_of (get_user_attributes ?g user) ''name'' = Some (PStr user)"
    by (simp add: ga map_of_dict_update effective_attributes_name)
  have look: "\<forall>k. map_of (get_user_attributes ?g user) k =
               (case map_of (rev ?a) k of
                  Some v \<Rightarrow> Some v
                | None \<Rightarrow> map_of (get_user_attributes g user) k)"
    by (simp add: ga map_of_dict_update)
  have supplied: "distinct (keys ?a) \<longrightarrow>
            (\<forall>kv \<in> set ?a. map_of (get_user_attributes ?g user) (fst kv) = Some (snd kv))"
  proof (intro impI ballI)
    fix kv assume d: "distinct (keys ?a)" and m: "kv \<in> set ?a"
    from d have "distinct (map fst (rev ?a))" by (simp add: keys_def rev_map [symmetric])
    moreover from m have "(fst kv, snd kv) \<in> set (rev ?a)" by simp
    ultimately have "map_of (rev ?a) (fst kv) = Some (snd kv)" by simp
    then show "map_of (get_user_attributes ?g user) (fst kv) = Some (snd kv)"
      by (simp add: look)
  qed
  show "fst (add_user g user attributes) = Inr ()" by (rule ok)
  show "has_node ?g user" by (rule hn)
  show "get_user_attributes ?g user = dict_update (get_user_attributes g user) ?a" by (rule ga)
  show "\<forall>k. map_of (get_user_attributes ?g user) k =
               (case map_of (rev ?a) k of
                  Some v \<Rightarrow> Some v
                | None \<Rightarrow> map_of (get_user_attributes g user) k)" by (rule look)
  show "map_of (get_user_attributes ?g user) ''name'' = Some (PStr user)"
    if "''name'' \<notin> set (keys (case attributes of None \<Rightarrow> [] | Some a \<Rightarrow> a))"
    using name that by blast
  show "\<forall>kv \<in> set ?a. map_of (get_user_attributes ?g user) (fst kv) = Some (snd kv)"
    if "distinct (keys ?a)" using supplied that by blast
  show "nodes ?g = nodes g" if "has_node g user" using same that by blast
  show "g_succ ?g = g_succ g" if "has_node g user" using same that by blast
  show "g_pred ?g = g_pred g" if "has_node g user" using same that by blast
  have fresh: "\<not> has_node g user \<longrightarrow>
      nodes ?g = nodes g @ [user] \<and> g_succ ?g = g_succ g @ [(user, [])] \<and>
      g_pred ?g = g_pred g @ [(user, [])]"
    unfolding g' using add_node_attributes(5) [OF assms] by blast
  show "nodes ?g = nodes g @ [user]" if "\<not> has_node g user" using fresh that by blast
  show "g_succ ?g = g_succ g @ [(user, [])]" if "\<not> has_node g user"
    using fresh that by blast
  show "g_pred ?g = g_pred g @ [(user, [])]" if "\<not> has_node g user"
    using fresh that by blast
  show "\<forall>v. v \<noteq> user \<longrightarrow> get_user_attributes ?g v = get_user_attributes g v"
    by (rule others)
qed

theorem add_user_updates_attributes_witness:
  "wf_digraph (snd (add_user empty_digraph ''A'' (Some [(''age'', PInt 30)]))) \<and>
   has_node (snd (add_user empty_digraph ''A'' (Some [(''age'', PInt 30)]))) ''A'' \<and>
   \<not> keyword_clash [''self'', ''node_for_adding'']
       (effective_attributes ''A'' (Some [(''bio'', PStr ''x'')])) \<and>
   fst (add_user (snd (add_user empty_digraph ''A'' (Some [(''age'', PInt 30)])))
          ''A'' (Some [(''bio'', PStr ''x'')])) = Inr () \<and>
   has_node example_readded ''A'' \<and>
   get_user_attributes example_readded ''A'' =
     dict_update
       (get_user_attributes (snd (add_user empty_digraph ''A'' (Some [(''age'', PInt 30)]))) ''A'')
       (effective_attributes ''A'' (Some [(''bio'', PStr ''x'')])) \<and>
   get_user_attributes example_readded ''A'' =
     [(''age'', PInt 30), (''name'', PStr ''A''), (''bio'', PStr ''x'')] \<and>
   keyword_clash [''self'', ''node_for_adding'']
     (effective_attributes ''B'' (Some [(''self'', PStr ''me'')])) \<and>
   add_user (snd (add_user empty_digraph ''A'' (Some [(''age'', PInt 30)])))
     ''B'' (Some [(''self'', PStr ''me'')]) =
     (Inl TypeError, snd (add_user empty_digraph ''A'' (Some [(''age'', PInt 30)])))"
proof -
  have w: "wf_digraph (snd (add_user empty_digraph ''A'' (Some [(''age'', PInt 30)])))"
    by code_simp
  have h: "has_node (snd (add_user empty_digraph ''A'' (Some [(''age'', PInt 30)]))) ''A''"
    by code_simp
  have n: "\<not> keyword_clash [''self'', ''node_for_adding'']
       (effective_attributes ''A'' (Some [(''bio'', PStr ''x'')]))"
    by code_simp
  have c: "keyword_clash [''self'', ''node_for_adding'']
     (effective_attributes ''B'' (Some [(''self'', PStr ''me'')]))"
    by code_simp
  have v: "get_user_attributes example_readded ''A'' =
     [(''age'', PInt 30), (''name'', PStr ''A''), (''bio'', PStr ''x'')]"
    by code_simp
  show ?thesis
    using add_user_updates_attributes [OF w, of "''A''" "Some [(''bio'', PStr ''x'')]"]
      add_user_updates_attributes [OF w, of "''B''" "Some [(''self'', PStr ''me'')]"]
      w h n c v
    unfolding example_readded_def by blast
qed

text \<open>
  C6 (as stated) fails: a user added with an age and added again with a bio still has
  the age, so the attributes after the second call are not the newly supplied ones.
\<close>

theorem add_user_previous_value_survives:
  "get_user_attributes example_readded ''A'' =
     [(''age'', PInt 30), (''name'', PStr ''A''), (''bio'', PStr ''x'')] \<and>
   get_user_attributes example_readded ''A'' \<noteq>
     effective_attributes ''A'' (Some [(''bio'', PStr ''x'')]) \<and>
   map_of (get_user_attributes example_readded ''A'') ''age'' = Some (PInt 30)"
  by code_simp

section \<open>The graph store keeps its graph well-formed\<close>

text \<open>
  The theorems about well-formed graphs speak about every graph the store can hold: the
  empty graph is well-formed, and \<open>add_user\<close>, \<open>add_friendship\<close>,
  \<open>remove_user\<close> and \<open>remove_friendship\<close> keep a graph well-formed, whether they
  succeed or raise.
\<close>


lemma in_alist_iff:
  "distinct (keys al) \<Longrightarrow> e \<in> set al \<longleftrightarrow> map_of al (fst e) = Some (snd e)"
  by (cases e) (simp add: keys_def)

lemma wf_adjacency_iff:
  assumes "distinct (keys a)"
  shows "wf_adjacency ns a \<longleftrightarrow>
     (\<forall>k nb. map_of a k = Some nb \<longrightarrow> distinct (keys nb) \<and> set (keys nb) \<subseteq> set ns)"
  unfolding wf_adjacency_def using in_alist_iff [OF assms] by fastforce

lemma mirrors_iff:
  assumes "distinct (keys a)" "wf_adjacency ns a"
  shows "mirrors a b \<longleftrightarrow>
     (\<forall>u nb v d. map_of a u = Some nb \<longrightarrow> map_of nb v = Some d \<longrightarrow>
        map_of (adj_of b v) u = Some d)"
proof
  assume m: "mirrors a b"
  show "\<forall>u nb v d. map_of a u = Some nb \<longrightarrow> map_of nb v = Some d \<longrightarrow>
        map_of (adj_of b v) u = Some d"
  proof (intro allI impI)
    fix u nb v d assume 1: "map_of a u = Some nb" and 2: "map_of nb v = Some d"
    from 1 have "(u, nb) \<in> set a" by (rule map_of_SomeD)
    moreover from 2 have "(v, d) \<in> set nb" by (rule map_of_SomeD)
    ultimately show "map_of (adj_of b v) u = Some d"
      using m unfolding mirrors_def by fastforce
  qed
next
  assume r: "\<forall>u nb v d. map_of a u = Some nb \<longrightarrow> map_of nb v = Some d \<longrightarrow>
        map_of (adj_of b v) u = Some d"
  show "mirrors a b"
    unfolding mirrors_def
  proof (intro ballI)
    fix e f assume e: "e \<in> set a" and f: "f \<in> set (snd e)"
    from e assms(1) have 1: "map_of a (fst e) = Some (snd e)" by (simp add: in_alist_iff)
    from e assms(2) have "distinct (keys (snd e))" by (simp add: wf_adjacency_def)
    with f have 2: "map_of (snd e) (fst f) = Some (snd f)" by (simp add: in_alist_iff)
    from r 1 2 show "map_of (adj_of b (fst f)) (fst e) = Some (snd f)" by blast
  qed
qed

lemma adj_of_update_same: "adj_of (AList.update k v a) k = v"
  by (simp add: adj_of_def dict_get_update_same)

lemma adj_of_update_other: "k' \<noteq> k \<Longrightarrow> adj_of (AList.update k v a) k' = adj_of a k'"
  by (simp add: adj_of_def dict_get_update_other)

lemma adj_of_Some: "map_of a k = Some nb \<Longrightarrow> adj_of a k = nb"
  by (simp add: adj_of_def dict_get_def)

lemma adj_of_None: "map_of a k = None \<Longrightarrow> adj_of a k = []"
  by (simp add: adj_of_def dict_get_def)

lemma keys_update_any:
  "keys (AList.update k v al) = (if k \<in> set (keys al) then keys al else keys al @ [k])"
  by (simp add: keys_def AList.update_keys)

lemma wf_digraph_iff:
  "wf_digraph g \<longleftrightarrow>
     distinct (keys (g_node g)) \<and> keys (g_succ g) = keys (g_node g) \<and>
     keys (g_pred g) = keys (g_node g) \<and>
     (\<forall>k nb. map_of (g_succ g) k = Some nb \<longrightarrow>
        distinct (keys nb) \<and> set (keys nb) \<subseteq> set (keys (g_node g))) \<and>
     (\<forall>k nb. map_of (g_pred g) k = Some nb \<longrightarrow>
        distinct (keys nb) \<and> set (keys nb) \<subseteq> set (keys (g_node g))) \<and>
     (\<forall>u nb v d. map_of (g_succ g) u = Some nb \<longrightarrow> map_of nb v = Some d \<longrightarrow>
        map_of (adj_of (g_pred g) v) u = Some d) \<and>
     (\<forall>u nb v d. map_of (g_pred g) u = Some nb \<longrightarrow> map_of nb v = Some d \<longrightarrow>
        map_of (adj_of (g_succ g) v) u = Some d)"
  (is "?L \<longleftrightarrow> ?R")
proof
  assume l: ?L
  then have d: "distinct (keys (g_node g))" and ks: "keys (g_succ g) = keys (g_node g)"
    and kp: "keys (g_pred g) = keys (g_node g)"
    and ws: "wf_adjacency (keys (g_node g)) (g_succ g)"
    and wp: "wf_adjacency (keys (g_node g)) (g_pred g)"
    and ms: "mirrors (g_succ g) (g_pred g)" and mp: "mirrors (g_pred g) (g_succ g)"
    by (simp_all add: wf_digraph_def)
  from d ks have ds: "distinct (keys (g_succ g))" by simp
  from d kp have dp: "distinct (keys (g_pred g))" by simp
  show ?R
    using d ks kp ws wp ms mp
      wf_adjacency_iff [OF ds, of "keys (g_node g)"] wf_adjacency_iff [OF dp, of "keys (g_node g)"]
      mirrors_iff [OF ds ws, of "g_pred g"] mirrors_iff [OF dp wp, of "g_succ g"]
    by blast
next
  assume r: ?R
  then have d: "distinct (keys (g_node g))" and ks: "keys (g_succ g) = keys (g_node g)"
    and kp: "keys (g_pred g) = keys (g_node g)" by simp_all
  from d ks have ds: "distinct (keys (g_succ g))" by simp
  from d kp have dp: "distinct (keys (g_pred g))" by simp
  from r have ws: "wf_adjacency (keys (g_node g)) (g_succ g)"
    using wf_adjacency_iff [OF ds, of "keys (g_node g)"] by blast
  from r have wp: "wf_adjacency (keys (g_node g)) (g_pred g)"
    using wf_adjacency_iff [OF dp, of "keys (g_node g)"] by blast
  from r have ms: "mirrors (g_succ g) (g_pred g)"
    using mirrors_iff [OF ds ws, of "g_pred g"] by blast
  from r have mp: "mirrors (g_pred g) (g_succ g)"
    using mirrors_iff [OF dp wp, of "g_succ g"] by blast
  show ?L using d ks kp ws wp ms mp by (simp add: wf_digraph_def)
qed

lemma map_of_in_keys: "map_of al k = Some v \<Longrightarrow> k \<in> set (keys al)"
  by (simp add: in_keys_iff)

lemma add_node_wf:
  assumes "wf_digraph g"
  shows "wf_digraph (add_node g n attr)"
proof (cases "n \<in> set (keys (g_succ g))")
  case True
  from assms have ks: "keys (g_succ g) = keys (g_node g)" by (simp add: wf_digraph_def)
  with True have kn: "keys (AList.update n (dict_update (dict_get (g_node g) n []) attr) (g_node g))
      = keys (g_node g)"
    by (simp add: keys_update_present)
  have "add_node g n attr =
      g\<lparr>g_node := AList.update n (dict_update (dict_get (g_node g) n []) attr) (g_node g)\<rparr>"
    using True by (simp add: add_node_def)
  then show ?thesis
    using assms kn by (simp add: wf_digraph_def)
next
  case False
  from assms have w: "distinct (keys (g_node g))" "keys (g_succ g) = keys (g_node g)"
    "keys (g_pred g) = keys (g_node g)"
    "\<And>k nb. map_of (g_succ g) k = Some nb \<Longrightarrow>
        distinct (keys nb) \<and> set (keys nb) \<subseteq> set (keys (g_node g))"
    "\<And>k nb. map_of (g_pred g) k = Some nb \<Longrightarrow>
        distinct (keys nb) \<and> set (keys nb) \<subseteq> set (keys (g_node g))"
    "\<And>u nb v d. map_of (g_succ g) u = Some nb \<Longrightarrow> map_of nb v = Some d \<Longrightarrow>
        map_of (adj_of (g_pred g) v) u = Some d"
    "\<And>u nb v d. map_of (g_pred g) u = Some nb \<Longrightarrow> map_of nb v = Some d \<Longrightarrow>
        map_of (adj_of (g_succ g) v) u = Some d"
    unfolding wf_digraph_iff by blast+
  let ?g = "g\<lparr>g_succ := AList.update n [] (g_succ g),
             g_pred := AList.update n [] (g_pred g),
             g_node := AList.update n (dict_update [] attr) (g_node g)\<rparr>"
  have eq: "add_node g n attr = ?g" using False by (simp add: add_node_def)
  from False w(2,3) have nn: "n \<notin> set (keys (g_node g))" "n \<notin> set (keys (g_pred g))" by simp_all
  have k1: "keys (g_node ?g) = keys (g_node g) @ [n]" using nn by (simp add: keys_update_any)
  have k2: "keys (g_succ ?g) = keys (g_node g) @ [n]"
    using False w(2) by (simp add: keys_update_any)
  have k3: "keys (g_pred ?g) = keys (g_node g) @ [n]"
    using nn w(3) by (simp add: keys_update_any)
  have d: "distinct (keys (g_node ?g))" using k1 w(1) nn by simp
  have s: "\<And>k nb. map_of (g_succ ?g) k = Some nb \<Longrightarrow>
        (k = n \<and> nb = []) \<or> (k \<noteq> n \<and> map_of (g_succ g) k = Some nb)"
    by (auto simp: AList.update_conv' split: if_splits)
  have p: "\<And>k nb. map_of (g_pred ?g) k = Some nb \<Longrightarrow>
        (k = n \<and> nb = []) \<or> (k \<noteq> n \<and> map_of (g_pred g) k = Some nb)"
    by (auto simp: AList.update_conv' split: if_splits)
  have a1: "\<forall>k nb. map_of (g_succ ?g) k = Some nb \<longrightarrow>
        distinct (keys nb) \<and> set (keys nb) \<subseteq> set (keys (g_node ?g))"
  proof (intro allI impI)
    fix k nb assume "map_of (g_succ ?g) k = Some nb"
    from s [OF this] show "distinct (keys nb) \<and> set (keys nb) \<subseteq> set (keys (g_node ?g))"
      using w(4) [of k nb] unfolding k1 by (auto simp: keys_def)
  qed
  have a2: "\<forall>k nb. map_of (g_pred ?g) k = Some nb \<longrightarrow>
        distinct (keys nb) \<and> set (keys nb) \<subseteq> set (keys (g_node ?g))"
  proof (intro allI impI)
    fix k nb assume "map_of (g_pred ?g) k = Some nb"
    from p [OF this] show "distinct (keys nb) \<and> set (keys nb) \<subseteq> set (keys (g_node ?g))"
      using w(5) [of k nb] unfolding k1 by (auto simp: keys_def)
  qed
  have m1: "\<forall>u nb v d. map_of (g_succ ?g) u = Some nb \<longrightarrow> map_of nb v = Some d \<longrightarrow>
        map_of (adj_of (g_pred ?g) v) u = Some d"
  proof (intro allI impI)
    fix u nb v d assume 1: "map_of (g_succ ?g) u = Some nb" and 2: "map_of nb v = Some d"
    from s [OF 1] 2 have 3: "u \<noteq> n" "map_of (g_succ g) u = Some nb" by auto
    from w(4) [OF 3(2)] 2 have "v \<in> set (keys (g_node g))"
      using map_of_in_keys [OF 2] by blast
    with nn have "v \<noteq> n" by blast
    then have "adj_of (g_pred ?g) v = adj_of (g_pred g) v" by (simp add: adj_of_update_other)
    with w(6) [OF 3(2) 2] show "map_of (adj_of (g_pred ?g) v) u = Some d" by simp
  qed
  have m2: "\<forall>u nb v d. map_of (g_pred ?g) u = Some nb \<longrightarrow> map_of nb v = Some d \<longrightarrow>
        map_of (adj_of (g_succ ?g) v) u = Some d"
  proof (intro allI impI)
    fix u nb v d assume 1: "map_of (g_pred ?g) u = Some nb" and 2: "map_of nb v = Some d"
    from p [OF 1] 2 have 3: "u \<noteq> n" "map_of (g_pred g) u = Some nb" by auto
    from w(5) [OF 3(2)] 2 have "v \<in> set (keys (g_node g))"
      using map_of_in_keys [OF 2] by blast
    with nn have "v \<noteq> n" by blast
    then have "adj_of (g_succ ?g) v = adj_of (g_succ g) v" by (simp add: adj_of_update_other)
    with w(7) [OF 3(2) 2] show "map_of (adj_of (g_succ ?g) v) u = Some d" by simp
  qed
  have "wf_digraph ?g"
    unfolding wf_digraph_iff using d k1 k2 k3 a1 a2 m1 m2 by simp
  then show ?thesis by (simp add: eq)
qed

lemma add_user_wf: "wf_digraph g \<Longrightarrow> wf_digraph (snd (add_user g user attributes))"
  by (simp add: add_user_effective add_node_wf)

lemma ensure_node_wf:
  assumes "wf_digraph g"
  shows "wf_digraph (ensure_node g n)" "n \<in> set (keys (g_succ (ensure_node g n)))"
    "set (keys (g_succ g)) \<subseteq> set (keys (g_succ (ensure_node g n)))"
proof -
  have e: "ensure_node g n = (if n \<notin> set (keys (g_succ g)) then add_node g n [] else g)"
    by (simp add: ensure_node_def add_node_def dict_update_def)
  show "wf_digraph (ensure_node g n)" using assms by (simp add: e add_node_wf)
  show "n \<in> set (keys (g_succ (ensure_node g n)))"
    by (simp add: ensure_node_def keys_update)
  show "set (keys (g_succ g)) \<subseteq> set (keys (g_succ (ensure_node g n)))"
    by (auto simp: ensure_node_def keys_update)
qed

lemma adj_of_cong: "map_of a k = map_of b k \<Longrightarrow> adj_of a k = adj_of b k"
  by (simp add: adj_of_def dict_get_def)

lemma link_wf:
  assumes "wf_digraph g" "u \<in> set (keys (g_succ g))" "v \<in> set (keys (g_succ g))"
  shows "wf_digraph
     (g\<lparr>g_succ := AList.update u (AList.update v dd (adj_of (g_succ g) u)) (g_succ g),
        g_pred := AList.update v (AList.update u dd (adj_of (g_pred g) v)) (g_pred g)\<rparr>)"
proof -
  from assms(1) have w: "distinct (keys (g_node g))" "keys (g_succ g) = keys (g_node g)"
    "keys (g_pred g) = keys (g_node g)"
    "\<And>k nb. map_of (g_succ g) k = Some nb \<Longrightarrow>
        distinct (keys nb) \<and> set (keys nb) \<subseteq> set (keys (g_node g))"
    "\<And>k nb. map_of (g_pred g) k = Some nb \<Longrightarrow>
        distinct (keys nb) \<and> set (keys nb) \<subseteq> set (keys (g_node g))"
    "\<And>u nb v d. map_of (g_succ g) u = Some nb \<Longrightarrow> map_of nb v = Some d \<Longrightarrow>
        map_of (adj_of (g_pred g) v) u = Some d"
    "\<And>u nb v d. map_of (g_pred g) u = Some nb \<Longrightarrow> map_of nb v = Some d \<Longrightarrow>
        map_of (adj_of (g_succ g) v) u = Some d"
    unfolding wf_digraph_iff by blast+
  from assms(2) obtain su where su: "map_of (g_succ g) u = Some su"
    by (auto simp: in_keys_iff)
  from assms(3) w(2,3) have vp: "v \<in> set (keys (g_pred g))" by simp
  then obtain pv where pv: "map_of (g_pred g) v = Some pv"
    by (auto simp: in_keys_iff)
  have asu: "adj_of (g_succ g) u = su" using su by (rule adj_of_Some)
  have apv: "adj_of (g_pred g) v = pv" using pv by (rule adj_of_Some)
  have un: "u \<in> set (keys (g_node g))" "v \<in> set (keys (g_node g))"
    using assms(2,3) w(2) by simp_all
  define S where "S = AList.update u (AList.update v dd su) (g_succ g)"
  define P where "P = AList.update v (AList.update u dd pv) (g_pred g)"
  have k2: "keys S = keys (g_node g)"
    using assms(2) w(2) by (simp add: S_def keys_update_present)
  have k3: "keys P = keys (g_node g)"
    using vp w(3) by (simp add: P_def keys_update_present)
  have s: "map_of S k = (if k = u then Some (AList.update v dd su) else map_of (g_succ g) k)"
    for k by (simp add: S_def AList.update_conv')
  have p: "map_of P k = (if k = v then Some (AList.update u dd pv) else map_of (g_pred g) k)"
    for k by (simp add: P_def AList.update_conv')
  have as: "adj_of S k = (if k = u then AList.update v dd su else adj_of (g_succ g) k)" for k
    by (simp add: adj_of_def dict_get_def s)
  have ap: "adj_of P k = (if k = v then AList.update u dd pv else adj_of (g_pred g) k)" for k
    by (simp add: adj_of_def dict_get_def p)
  have a1: "\<forall>k nb. map_of S k = Some nb \<longrightarrow>
        distinct (keys nb) \<and> set (keys nb) \<subseteq> set (keys (g_node g))"
  proof (intro allI impI)
    fix k nb assume 1: "map_of S k = Some nb"
    show "distinct (keys nb) \<and> set (keys nb) \<subseteq> set (keys (g_node g))"
    proof (cases "k = u")
      case True
      with 1 have "nb = AList.update v dd su" by (simp add: s)
      then show ?thesis using w(4) [OF su] un by (simp add: distinct_keys_update keys_update)
    next
      case False
      with 1 have "map_of (g_succ g) k = Some nb" by (simp add: s)
      from w(4) [OF this] show ?thesis by simp
    qed
  qed
  have a2: "\<forall>k nb. map_of P k = Some nb \<longrightarrow>
        distinct (keys nb) \<and> set (keys nb) \<subseteq> set (keys (g_node g))"
  proof (intro allI impI)
    fix k nb assume 1: "map_of P k = Some nb"
    show "distinct (keys nb) \<and> set (keys nb) \<subseteq> set (keys (g_node g))"
    proof (cases "k = v")
      case True
      with 1 have "nb = AList.update u dd pv" by (simp add: p)
      then show ?thesis using w(5) [OF pv] un by (simp add: distinct_keys_update keys_update)
    next
      case False
      with 1 have "map_of (g_pred g) k = Some nb" by (simp add: p)
      from w(5) [OF this] show ?thesis by simp
    qed
  qed
  have m1: "\<forall>a nb b d. map_of S a = Some nb \<longrightarrow> map_of nb b = Some d \<longrightarrow>
        map_of (adj_of P b) a = Some d"
  proof (intro allI impI)
    fix a nb b d assume 1: "map_of S a = Some nb" and 2: "map_of nb b = Some d"
    show "map_of (adj_of P b) a = Some d"
    proof (cases "a = u")
      case True
      with 1 have nb: "nb = AList.update v dd su" by (simp add: s)
      show ?thesis
      proof (cases "b = v")
        case bv: True
        with 2 nb have "d = dd" by (simp add: AList.update_conv')
        then show ?thesis using True bv by (simp add: ap AList.update_conv')
      next
        case bv: False
        with 2 nb have "map_of su b = Some d" by (simp add: AList.update_conv')
        from w(6) [OF su this] show ?thesis using True bv by (simp add: ap)
      qed
    next
      case False
      with 1 have 3: "map_of (g_succ g) a = Some nb" by (simp add: s)
      from w(6) [OF 3 2] show ?thesis
        using False apv by (auto simp: ap AList.update_conv')
    qed
  qed
  have m2: "\<forall>a nb b d. map_of P a = Some nb \<longrightarrow> map_of nb b = Some d \<longrightarrow>
        map_of (adj_of S b) a = Some d"
  proof (intro allI impI)
    fix a nb b d assume 1: "map_of P a = Some nb" and 2: "map_of nb b = Some d"
    show "map_of (adj_of S b) a = Some d"
    proof (cases "a = v")
      case True
      with 1 have nb: "nb = AList.update u dd pv" by (simp add: p)
      show ?thesis
      proof (cases "b = u")
        case bu: True
        with 2 nb have "d = dd" by (simp add: AList.update_conv')
        then show ?thesis using True bu by (simp add: as AList.update_conv')
      next
        case bu: False
        with 2 nb have "map_of pv b = Some d" by (simp add: AList.update_conv')
        from w(7) [OF pv this] show ?thesis using True bu by (simp add: as)
      qed
    next
      case False
      with 1 have 3: "map_of (g_pred g) a = Some nb" by (simp add: p)
      from w(7) [OF 3 2] show ?thesis
        using False asu by (auto simp: as AList.update_conv')
    qed
  qed
  have "wf_digraph (g\<lparr>g_succ := S, g_pred := P\<rparr>)"
    unfolding wf_digraph_iff using w(1) k2 k3 a1 a2 m1 m2 by simp
  then show ?thesis by (simp add: S_def P_def asu apv)
qed

lemma add_edge_wf:
  assumes "wf_digraph g"
  shows "wf_digraph (add_edge g u v attr)"
proof -
  let ?g1 = "ensure_node (ensure_node g u) v"
  have w1: "wf_digraph ?g1" using assms by (simp add: ensure_node_wf(1))
  have v1: "v \<in> set (keys (g_succ ?g1))" using assms by (simp add: ensure_node_wf)
  have "u \<in> set (keys (g_succ (ensure_node g u)))" using assms by (simp add: ensure_node_wf)
  then have u1: "u \<in> set (keys (g_succ ?g1))"
    using ensure_node_wf(3) [OF ensure_node_wf(1) [OF assms], of u v] by blast
  show ?thesis
    unfolding add_edge_def Let_def by (rule link_wf [OF w1 u1 v1])
qed

lemma add_friendship_wf:
  "wf_digraph g \<Longrightarrow> wf_digraph (snd (add_friendship g user1 user2 attributes))"
  by (simp add: add_friendship_def add_edge_wf Let_def)

lemma keys_delete: "keys (AList.delete k al) = removeAll k (keys al)"
  by (simp add: keys_def AList.delete_keys)

lemma distinct_keys_delete: "distinct (keys al) \<Longrightarrow> distinct (keys (AList.delete k al))"
  by (simp add: keys_delete distinct_removeAll)

lemma unlink_wf:
  assumes "wf_digraph g" "u \<in> set (keys (g_succ g))" "v \<in> set (keys (g_succ g))"
  shows "wf_digraph
     (g\<lparr>g_succ := AList.update u (AList.delete v (adj_of (g_succ g) u)) (g_succ g),
        g_pred := AList.update v (AList.delete u (adj_of (g_pred g) v)) (g_pred g)\<rparr>)"
proof -
  from assms(1) have w: "distinct (keys (g_node g))" "keys (g_succ g) = keys (g_node g)"
    "keys (g_pred g) = keys (g_node g)"
    "\<And>k nb. map_of (g_succ g) k = Some nb \<Longrightarrow>
        distinct (keys nb) \<and> set (keys nb) \<subseteq> set (keys (g_node g))"
    "\<And>k nb. map_of (g_pred g) k = Some nb \<Longrightarrow>
        distinct (keys nb) \<and> set (keys nb) \<subseteq> set (keys (g_node g))"
    "\<And>u nb v d. map_of (g_succ g) u = Some nb \<Longrightarrow> map_of nb v = Some d \<Longrightarrow>
        map_of (adj_of (g_pred g) v) u = Some d"
    "\<And>u nb v d. map_of (g_pred g) u = Some nb \<Longrightarrow> map_of nb v = Some d \<Longrightarrow>
        map_of (adj_of (g_succ g) v) u = Some d"
    unfolding wf_digraph_iff by blast+
  from assms(2) obtain su where su: "map_of (g_succ g) u = Some su"
    by (auto simp: in_keys_iff)
  from assms(3) w(2,3) have vp: "v \<in> set (keys (g_pred g))" by simp
  then obtain pv where pv: "map_of (g_pred g) v = Some pv"
    by (auto simp: in_keys_iff)
  have asu: "adj_of (g_succ g) u = su" using su by (rule adj_of_Some)
  have apv: "adj_of (g_pred g) v = pv" using pv by (rule adj_of_Some)
  define S where "S = AList.update u (AList.delete v su) (g_succ g)"
  define P where "P = AList.update v (AList.delete u pv) (g_pred g)"
  have k2: "keys S = keys (g_node g)"
    using assms(2) w(2) by (simp add: S_def keys_update_present)
  have k3: "keys P = keys (g_node g)"
    using vp w(3) by (simp add: P_def keys_update_present)
  have s: "map_of S k = (if k = u then Some (AList.delete v su) else map_of (g_succ g) k)"
    for k by (simp add: S_def AList.update_conv')
  have p: "map_of P k = (if k = v then Some (AList.delete u pv) else map_of (g_pred g) k)"
    for k by (simp add: P_def AList.update_conv')
  have as: "adj_of S k = (if k = u then AList.delete v su else adj_of (g_succ g) k)" for k
    by (simp add: adj_of_def dict_get_def s)
  have ap: "adj_of P k = (if k = v then AList.delete u pv else adj_of (g_pred g) k)" for k
    by (simp add: adj_of_def dict_get_def p)
  have a1: "\<forall>k nb. map_of S k = Some nb \<longrightarrow>
        distinct (keys nb) \<and> set (keys nb) \<subseteq> set (keys (g_node g))"
  proof (intro allI impI)
    fix k nb assume 1: "map_of S k = Some nb"
    show "distinct (keys nb) \<and> set (keys nb) \<subseteq> set (keys (g_node g))"
    proof (cases "k = u")
      case True
      with 1 have "nb = AList.delete v su" by (simp add: s)
      then show ?thesis using w(4) [OF su] by (auto simp: keys_delete distinct_removeAll)
    next
      case False
      with 1 have "map_of (g_succ g) k = Some nb" by (simp add: s)
      from w(4) [OF this] show ?thesis by simp
    qed
  qed
  have a2: "\<forall>k nb. map_of P k = Some nb \<longrightarrow>
        distinct (keys nb) \<and> set (keys nb) \<subseteq> set (keys (g_node g))"
  proof (intro allI impI)
    fix k nb assume 1: "map_of P k = Some nb"
    show "distinct (keys nb) \<and> set (keys nb) \<subseteq> set (keys (g_node g))"
    proof (cases "k = v")
      case True
      with 1 have "nb = AList.delete u pv" by (simp add: p)
      then show ?thesis using w(5) [OF pv] by (auto simp: keys_delete distinct_removeAll)
    next
      case False
      with 1 have "map_of (g_pred g) k = Some nb" by (simp add: p)
      from w(5) [OF this] show ?thesis by simp
    qed
  qed
  have m1: "\<forall>a nb b d. map_of S a = Some nb \<longrightarrow> map_of nb b = Some d \<longrightarrow>
        map_of (adj_of P b) a = Some d"
  proof (intro allI impI)
    fix a nb b d assume 1: "map_of S a = Some nb" and 2: "map_of nb b = Some d"
    show "map_of (adj_of P b) a = Some d"
    proof (cases "a = u")
      case True
      with 1 have nb: "nb = AList.delete v su" by (simp add: s)
      with 2 have bv: "b \<noteq> v" and 3: "map_of su b = Some d"
        by (auto simp: AList.delete_conv' split: if_splits)
      from w(6) [OF su 3] show ?thesis using True bv by (simp add: ap)
    next
      case False
      with 1 have 3: "map_of (g_succ g) a = Some nb" by (simp add: s)
      from w(6) [OF 3 2] show ?thesis
        using False apv by (auto simp: ap AList.delete_conv')
    qed
  qed
  have m2: "\<forall>a nb b d. map_of P a = Some nb \<longrightarrow> map_of nb b = Some d \<longrightarrow>
        map_of (adj_of S b) a = Some d"
  proof (intro allI impI)
    fix a nb b d assume 1: "map_of P a = Some nb" and 2: "map_of nb b = Some d"
    show "map_of (adj_of S b) a = Some d"
    proof (cases "a = v")
      case True
      with 1 have nb: "nb = AList.delete u pv" by (simp add: p)
      with 2 have bu: "b \<noteq> u" and 3: "map_of pv b = Some d"
        by (auto simp: AList.delete_conv' split: if_splits)
      from w(7) [OF pv 3] show ?thesis using True bu by (simp add: as)
    next
      case False
      with 1 have 3: "map_of (g_pred g) a = Some nb" by (simp add: p)
      from w(7) [OF 3 2] show ?thesis
        using False asu by (auto simp: as AList.delete_conv')
    qed
  qed
  have "wf_digraph (g\<lparr>g_succ := S, g_pred := P\<rparr>)"
    unfolding wf_digraph_iff using w(1) k2 k3 a1 a2 m1 m2 by simp
  then show ?thesis by (simp add: S_def P_def asu apv)
qed

lemma remove_edge_wf:
  assumes "wf_digraph g" "remove_edge g u v = Inr g'"
  shows "wf_digraph g'"
proof -
  from assms(2) have e: "has_edge g u v"
    and g': "g' = g\<lparr>g_succ := AList.update u (AList.delete v (adj_of (g_succ g) u)) (g_succ g),
                  g_pred := AList.update v (AList.delete u (adj_of (g_pred g) v)) (g_pred g)\<rparr>"
    by (auto simp: remove_edge_def split: if_splits)
  from has_edge_target_node [OF assms(1) e] assms(1)
  have "u \<in> set (keys (g_succ g))" "v \<in> set (keys (g_succ g))"
    by (simp_all add: has_node_def wf_digraph_def)
  then show ?thesis unfolding g' by (rule unlink_wf [OF assms(1)])
qed

lemma remove_friendship_wf:
  "wf_digraph g \<Longrightarrow> wf_digraph (snd (remove_friendship g user1 user2))"
  by (auto simp: remove_friendship_def remove_edge_wf split: sum.splits)

lemma keys_map_values: "keys (map (\<lambda>(u, nbrs). (u, f nbrs)) al) = keys al"
  by (induction al) (auto simp: keys_def)

lemma map_of_map_values:
  "map_of (map (\<lambda>(u, nbrs). (u, f nbrs)) al) k = map_option f (map_of al k)"
  by (induction al) auto

lemma adj_of_pruned:
  "k \<noteq> n \<Longrightarrow>
   adj_of (map (\<lambda>(u, nbrs). (u, AList.delete n nbrs)) (AList.delete n a)) k
     = AList.delete n (adj_of a k)"
proof -
  assume kn: "k \<noteq> n"
  have m: "map_of (map (\<lambda>(u, nbrs). (u, AList.delete n nbrs)) (AList.delete n a)) k
      = map_option (AList.delete n) (map_of a k)"
    using kn by (simp add: map_of_map_values AList.delete_conv')
  show ?thesis
  proof (cases "map_of a k")
    case None
    then show ?thesis using m by (simp add: adj_of_def dict_get_def AList.delete_eq)
  next
    case (Some nb)
    then show ?thesis using m by (simp add: adj_of_def dict_get_def)
  qed
qed

lemma remove_node_wf:
  assumes "wf_digraph g" "remove_node g n = Inr g'"
  shows "wf_digraph g'"
proof -
  from assms(1) have w: "distinct (keys (g_node g))" "keys (g_succ g) = keys (g_node g)"
    "keys (g_pred g) = keys (g_node g)"
    "\<And>k nb. map_of (g_succ g) k = Some nb \<Longrightarrow>
        distinct (keys nb) \<and> set (keys nb) \<subseteq> set (keys (g_node g))"
    "\<And>k nb. map_of (g_pred g) k = Some nb \<Longrightarrow>
        distinct (keys nb) \<and> set (keys nb) \<subseteq> set (keys (g_node g))"
    "\<And>u nb v d. map_of (g_succ g) u = Some nb \<Longrightarrow> map_of nb v = Some d \<Longrightarrow>
        map_of (adj_of (g_pred g) v) u = Some d"
    "\<And>u nb v d. map_of (g_pred g) u = Some nb \<Longrightarrow> map_of nb v = Some d \<Longrightarrow>
        map_of (adj_of (g_succ g) v) u = Some d"
    unfolding wf_digraph_iff by blast+
  define S where "S = map (\<lambda>(u, nbrs). (u, AList.delete n nbrs)) (AList.delete n (g_succ g))"
  define P where "P = map (\<lambda>(u, nbrs). (u, AList.delete n nbrs)) (AList.delete n (g_pred g))"
  define N where "N = AList.delete n (g_node g)"
  from assms(2) have g': "g' = \<lparr>g_node = N, g_succ = S, g_pred = P\<rparr>"
    by (auto simp: remove_node_def S_def P_def N_def split: if_splits)
  have kn: "keys N = removeAll n (keys (g_node g))" by (simp add: N_def keys_delete)
  have k1: "distinct (keys N)" using w(1) by (simp add: kn distinct_removeAll)
  have k2: "keys S = keys N" using w(2) by (simp add: S_def kn keys_map_values keys_delete)
  have k3: "keys P = keys N" using w(3) by (simp add: P_def kn keys_map_values keys_delete)
  have s: "map_of S k = Some nb' \<Longrightarrow>
      k \<noteq> n \<and> (\<exists>nb. map_of (g_succ g) k = Some nb \<and> nb' = AList.delete n nb)" for k nb'
    by (auto simp: S_def map_of_map_values AList.delete_conv' split: if_splits)
  have p: "map_of P k = Some nb' \<Longrightarrow>
      k \<noteq> n \<and> (\<exists>nb. map_of (g_pred g) k = Some nb \<and> nb' = AList.delete n nb)" for k nb'
    by (auto simp: P_def map_of_map_values AList.delete_conv' split: if_splits)
  have a1: "\<forall>k nb. map_of S k = Some nb \<longrightarrow>
        distinct (keys nb) \<and> set (keys nb) \<subseteq> set (keys N)"
  proof (intro allI impI)
    fix k nb' assume "map_of S k = Some nb'"
    from s [OF this] obtain nb where "map_of (g_succ g) k = Some nb" "nb' = AList.delete n nb"
      by blast
    with w(4) [of k nb] show "distinct (keys nb') \<and> set (keys nb') \<subseteq> set (keys N)"
      by (auto simp: kn keys_delete distinct_removeAll)
  qed
  have a2: "\<forall>k nb. map_of P k = Some nb \<longrightarrow>
        distinct (keys nb) \<and> set (keys nb) \<subseteq> set (keys N)"
  proof (intro allI impI)
    fix k nb' assume "map_of P k = Some nb'"
    from p [OF this] obtain nb where "map_of (g_pred g) k = Some nb" "nb' = AList.delete n nb"
      by blast
    with w(5) [of k nb] show "distinct (keys nb') \<and> set (keys nb') \<subseteq> set (keys N)"
      by (auto simp: kn keys_delete distinct_removeAll)
  qed
  have m1: "\<forall>a nb b d. map_of S a = Some nb \<longrightarrow> map_of nb b = Some d \<longrightarrow>
        map_of (adj_of P b) a = Some d"
  proof (intro allI impI)
    fix a nb' b d assume 1: "map_of S a = Some nb'" and 2: "map_of nb' b = Some d"
    from s [OF 1] obtain nb where an: "a \<noteq> n" and 3: "map_of (g_succ g) a = Some nb"
      and nb': "nb' = AList.delete n nb" by blast
    from 2 nb' have bn: "b \<noteq> n" and 4: "map_of nb b = Some d"
      by (auto simp: AList.delete_conv' split: if_splits)
    from w(6) [OF 3 4] show "map_of (adj_of P b) a = Some d"
      using an bn by (simp add: P_def adj_of_pruned AList.delete_conv')
  qed
  have m2: "\<forall>a nb b d. map_of P a = Some nb \<longrightarrow> map_of nb b = Some d \<longrightarrow>
        map_of (adj_of S b) a = Some d"
  proof (intro allI impI)
    fix a nb' b d assume 1: "map_of P a = Some nb'" and 2: "map_of nb' b = Some d"
    from p [OF 1] obtain nb where an: "a \<noteq> n" and 3: "map_of (g_pred g) a = Some nb"
      and nb': "nb' = AList.delete n nb" by blast
    from 2 nb' have bn: "b \<noteq> n" and 4: "map_of nb b = Some d"
      by (auto simp: AList.delete_conv' split: if_splits)
    from w(7) [OF 3 4] show "map_of (adj_of S b) a = Some d"
      using an bn by (simp add: S_def adj_of_pruned AList.delete_conv')
  qed
  show ?thesis
    unfolding wf_digraph_iff g' using k1 k2 k3 a1 a2 m1 m2 by simp
qed

lemma remove_user_wf: "wf_digraph g \<Longrightarrow> wf_digraph (snd (remove_user g user))"
  by (auto simp: remove_user_def remove_node_wf split: sum.splits)

section \<open>Friend recommendations\<close>

lemma count_friends_of_friend_lookup:
  "map_of (count_friends_of_friend user cf mf fofs) c =
     (if c \<in> set fofs \<and> c \<noteq> user \<and> c \<notin> set cf
      then Some (dict_get mf c 0 + int (count_list fofs c))
      else map_of mf c)"
proof (induction fofs arbitrary: mf)
  case Nil
  then show ?case by simp
next
  case (Cons x xs)
  show ?case
    by (simp add: Cons.IH AList.update_conv' dict_get_def)
qed

lemma count_friends_of_friend_distinct:
  "distinct (keys mf) \<Longrightarrow> distinct (keys (count_friends_of_friend user cf mf fofs))"
  by (induction fofs arbitrary: mf) (simp_all add: distinct_keys_update)

lemma count_list_distinct:
  "distinct xs \<Longrightarrow> count_list xs x = (if x \<in> set xs then 1 else 0)"
  by (induction xs) auto

lemma count_mutual_friends_lookup:
  assumes "wf_digraph g" "\<forall>f \<in> set fs. has_node g f"
  shows "\<exists>mf'. count_mutual_friends g user cf mf fs = Inr mf' \<and>
           (distinct (keys mf) \<longrightarrow> distinct (keys mf')) \<and>
           (\<forall>c. map_of mf' c =
              (if 0 < mutual_total g fs c \<and> c \<noteq> user \<and> c \<notin> set cf
               then Some (dict_get mf c 0 + int (mutual_total g fs c))
               else map_of mf c))"
  using assms(2)
proof (induction fs arbitrary: mf)
  case Nil
  then show ?case by (simp add: mutual_total_def)
next
  case (Cons f fs)
  from Cons.prems have "has_node g f" by simp
  with assms(1) obtain nbrs where nb: "successors g f = Inr nbrs" "distinct nbrs"
    "\<And>v. v \<in> set nbrs \<longleftrightarrow> has_edge g f v"
    by (rule successors_wf) blast
  let ?mf1 = "count_friends_of_friend user cf mf nbrs"
  from Cons.prems have "\<forall>f \<in> set fs. has_node g f" by simp
  from Cons.IH [OF this, of ?mf1] obtain mf' where
    r: "count_mutual_friends g user cf ?mf1 fs = Inr mf'"
    and d: "distinct (keys ?mf1) \<longrightarrow> distinct (keys mf')"
    and l: "\<forall>c. map_of mf' c =
              (if 0 < mutual_total g fs c \<and> c \<noteq> user \<and> c \<notin> set cf
               then Some (dict_get ?mf1 c 0 + int (mutual_total g fs c))
               else map_of ?mf1 c)"
    by blast
  have cl: "\<And>c. count_list nbrs c = (if has_edge g f c then 1 else 0)"
    using nb(2,3) by (simp add: count_list_distinct)
  have "count_mutual_friends g user cf mf (f # fs) = Inr mf'"
    using nb(1) r by simp
  moreover have "distinct (keys mf) \<longrightarrow> distinct (keys mf')"
    using d count_friends_of_friend_distinct by blast
  moreover have "\<forall>c. map_of mf' c =
              (if 0 < mutual_total g (f # fs) c \<and> c \<noteq> user \<and> c \<notin> set cf
               then Some (dict_get mf c 0 + int (mutual_total g (f # fs) c))
               else map_of mf c)"
  proof
    fix c
    show "map_of mf' c =
              (if 0 < mutual_total g (f # fs) c \<and> c \<noteq> user \<and> c \<notin> set cf
               then Some (dict_get mf c 0 + int (mutual_total g (f # fs) c))
               else map_of mf c)"
      using l [rule_format, of c] nb(3) [of c] cl [of c]
      by (auto simp: count_friends_of_friend_lookup mutual_total_def dict_get_def)
  qed
  ultimately show ?case by blast
qed

lemma mutual_total_card:
  assumes "distinct fs" "\<And>f. f \<in> set fs \<longleftrightarrow> has_edge g u f"
  shows "mutual_total g fs c = card {f. has_edge g u f \<and> has_edge g f c}"
proof -
  have "{f. has_edge g f c} \<inter> set fs = {f. has_edge g u f \<and> has_edge g f c}"
    using assms(2) by auto
  then show ?thesis
    using assms(1) by (simp add: mutual_total_def distinct_length_filter)
qed

lemma mutual_total_pos:
  "0 < mutual_total g fs c \<longleftrightarrow> (\<exists>f \<in> set fs. has_edge g f c)"
  by (auto simp: mutual_total_def length_greater_0_conv filter_empty_conv simp del: length_greater_0_conv)

lemma distinct_map_insort_key:
  "distinct (map h (insort_key f x xs)) \<longleftrightarrow> h x \<notin> h ` set xs \<and> distinct (map h xs)"
  by (induction xs) (auto simp: set_insort_key)

lemma distinct_map_sort_key: "distinct (map h (sort_key f xs)) \<longleftrightarrow> distinct (map h xs)"
  by (induction xs) (simp_all add: distinct_map_insort_key)

text \<open>
  C8. For a node \<open>u\<close> of a well-formed graph, \<open>recommend_friends\<close> returns pairs of
  a candidate and a count, and leaves the graph as it was. Every candidate is two directed
  hops from \<open>u\<close> (a successor of a successor), is not \<open>u\<close> and is not a direct
  successor of \<open>u\<close>; its count is the number of successors of \<open>u\<close> that have the
  candidate as a successor. Every user who is two directed hops from \<open>u\<close>, is not
  \<open>u\<close> and is not a direct successor of \<open>u\<close> is among the candidates, with that
  count, and no candidate is listed twice. The pairs are in descending order of count.
  This holds for every order in which the set of successors is iterated.
\<close>

theorem recommend_friends_two_hops:
  assumes "wf_digraph g" "has_node g u" "is_set_order set_order"
  shows "\<exists>rs. recommend_friends set_order g u = (Inr rs, g) \<and>
           (\<forall>r \<in> set rs.
              (\<exists>f. has_edge g u f \<and> has_edge g f (fst r)) \<and>
              fst r \<noteq> u \<and> \<not> has_edge g u (fst r) \<and>
              snd r = int (card {f. has_edge g u f \<and> has_edge g f (fst r)})) \<and>
           (\<forall>c. (\<exists>f. has_edge g u f \<and> has_edge g f c) \<and> c \<noteq> u \<and> \<not> has_edge g u c \<longrightarrow>
                (c, int (card {f. has_edge g u f \<and> has_edge g f c})) \<in> set rs) \<and>
           distinct (map fst rs) \<and>
           sorted_wrt (\<lambda>a b. snd b \<le> snd a) rs"
proof -
  from assms(1,2) obtain succs where sc: "successors g u = Inr succs"
    "\<And>v. v \<in> set succs \<longleftrightarrow> has_edge g u v"
    by (rule successors_wf) blast
  define cf where "cf = set_order succs"
  from assms(3) have cf: "distinct cf" "set cf = set succs"
    by (simp_all add: cf_def is_set_order_def)
  have cfe: "\<And>f. f \<in> set cf \<longleftrightarrow> has_edge g u f"
    using cf(2) sc(2) by simp
  have "\<forall>f \<in> set cf. has_node g f"
    using cfe assms(1) has_edge_target_node(1) by blast
  from count_mutual_friends_lookup [OF assms(1) this, of u cf "[]"]
  obtain mf where mf: "count_mutual_friends g u cf [] cf = Inr mf"
    "distinct (keys mf)"
    "\<And>c. map_of mf c =
       (if 0 < mutual_total g cf c \<and> c \<noteq> u \<and> c \<notin> set cf
        then Some (int (mutual_total g cf c)) else None)"
    by (auto simp: keys_def dict_get_def)
  let ?rs = "sort_key (\<lambda>x. - snd x) mf"
  have r: "recommend_friends set_order g u = (Inr ?rs, g)"
    using assms(2) sc(1) mf(1) by (simp add: recommend_friends_def cf_def)
  have "\<forall>r \<in> set ?rs.
              (\<exists>f. has_edge g u f \<and> has_edge g f (fst r)) \<and>
              fst r \<noteq> u \<and> \<not> has_edge g u (fst r) \<and>
              snd r = int (card {f. has_edge g u f \<and> has_edge g f (fst r)})"
  proof
    fix r assume "r \<in> set ?rs"
    then have "(fst r, snd r) \<in> set mf" by simp
    with mf(2) have "map_of mf (fst r) = Some (snd r)"
      by (simp add: keys_def)
    then have a: "0 < mutual_total g cf (fst r)" "fst r \<noteq> u" "fst r \<notin> set cf"
      "snd r = int (mutual_total g cf (fst r))"
      by (auto simp: mf(3) split: if_splits)
    from a(1) have "\<exists>f. has_edge g u f \<and> has_edge g f (fst r)"
      using cfe by (auto simp: mutual_total_pos)
    moreover have "\<not> has_edge g u (fst r)" using a(3) cfe by simp
    moreover have "snd r = int (card {f. has_edge g u f \<and> has_edge g f (fst r)})"
      using a(4) mutual_total_card [OF cf(1) cfe] by simp
    ultimately show "(\<exists>f. has_edge g u f \<and> has_edge g f (fst r)) \<and>
              fst r \<noteq> u \<and> \<not> has_edge g u (fst r) \<and>
              snd r = int (card {f. has_edge g u f \<and> has_edge g f (fst r)})"
      using a(2) by blast
  qed
  moreover have "\<forall>c. (\<exists>f. has_edge g u f \<and> has_edge g f c) \<and> c \<noteq> u \<and> \<not> has_edge g u c \<longrightarrow>
                (c, int (card {f. has_edge g u f \<and> has_edge g f c})) \<in> set ?rs"
  proof (intro allI impI)
    fix c assume c: "(\<exists>f. has_edge g u f \<and> has_edge g f c) \<and> c \<noteq> u \<and> \<not> has_edge g u c"
    then have "0 < mutual_total g cf c" using cfe by (auto simp: mutual_total_pos)
    moreover from c have "c \<notin> set cf" using cfe by simp
    ultimately have "map_of mf c = Some (int (mutual_total g cf c))"
      using c by (simp add: mf(3))
    then have "(c, int (mutual_total g cf c)) \<in> set mf" by (rule map_of_SomeD)
    then show "(c, int (card {f. has_edge g u f \<and> has_edge g f c})) \<in> set ?rs"
      using mutual_total_card [OF cf(1) cfe] by simp
  qed
  moreover have "distinct (map fst ?rs)"
    using mf(2) by (simp add: distinct_map_sort_key keys_def)
  moreover have "sorted_wrt (\<lambda>a b. snd b \<le> snd a) ?rs"
  proof -
    have "sorted (map (\<lambda>x. - snd x) ?rs)" by (rule sorted_sort_key)
    then show ?thesis by (simp add: sorted_map)
  qed
  ultimately show ?thesis using r by blast
qed

lemma wf_example_chain: "wf_digraph example_chain"
  by code_simp

theorem recommend_friends_two_hops_witness:
  "wf_digraph example_chain \<and> has_node example_chain ''A'' \<and> is_set_order remdups \<and>
   (\<exists>rs. recommend_friends remdups example_chain ''A'' = (Inr rs, example_chain) \<and>
           (\<forall>r \<in> set rs.
              (\<exists>f. has_edge example_chain ''A'' f \<and> has_edge example_chain f (fst r)) \<and>
              fst r \<noteq> ''A'' \<and> \<not> has_edge example_chain ''A'' (fst r) \<and>
              snd r = int (card {f. has_edge example_chain ''A'' f \<and> has_edge example_chain f (fst r)})) \<and>
           (\<forall>c. (\<exists>f. has_edge example_chain ''A'' f \<and> has_edge example_chain f c) \<and>
                c \<noteq> ''A'' \<and> \<not> has_edge example_chain ''A'' c \<longrightarrow>
                (c, int (card {f. has_edge example_chain ''A'' f \<and> has_edge example_chain f c}))
                  \<in> set rs) \<and>
           distinct (map fst rs) \<and>
           sorted_wrt (\<lambda>a b. snd b \<le> snd a) rs) \<and>
   fst (recommend_friends remdups example_chain ''A'') = Inr [(''C'', 1)]"
proof -
  have w: "wf_digraph example_chain" by (rule wf_example_chain)
  have n: "has_node example_chain ''A''" by code_simp
  have o: "is_set_order remdups" by (simp add: is_set_order_def)
  have v: "fst (recommend_friends remdups example_chain ''A'') = Inr [(''C'', 1)]" by code_simp
  show ?thesis using recommend_friends_two_hops [OF w n o] w n o v by blast
qed

text \<open>
  C10. For a handle that is not a node, \<open>recommend_friends\<close> returns the empty list,
  raises nothing, and leaves the graph as it was.
\<close>

theorem recommend_friends_unknown_user:
  assumes "\<not> has_node g u"
  shows "recommend_friends set_order g u = (Inr [], g)"
  using assms by (simp add: recommend_friends_def)

theorem recommend_friends_unknown_user_witness:
  "\<not> has_node example_chain ''Z'' \<and>
   recommend_friends remdups example_chain ''Z'' = (Inr [], example_chain)"
proof -
  have n: "\<not> has_node example_chain ''Z''" by code_simp
  show ?thesis using recommend_friends_unknown_user [OF n] n by blast
qed

section \<open>Information spread\<close>


lemma spread_to_neighbors_result:
  assumes "set nbrs \<subseteq> set (keys informed)"
  shows "\<exists>newly' k'. spread_to_neighbors rnd p informed nbrs (newly, k) = Inr (newly', k') \<and>
           set newly \<subseteq> set newly' \<and>
           set newly' \<subseteq> set newly \<union> {v \<in> set nbrs. map_of informed v = Some False} \<and>
           ((\<forall>j. rnd j < p) \<longrightarrow>
              set newly' = set newly \<union> {v \<in> set nbrs. map_of informed v = Some False}) \<and>
           ((\<forall>j. \<not> rnd j < p) \<longrightarrow> newly' = newly)"
  using assms
proof (induction nbrs arbitrary: newly k)
  case Nil
  then show ?case by simp
next
  case (Cons x xs)
  from Cons.prems obtain b where b: "map_of informed x = Some b"
    by (auto simp: in_keys_iff)
  from Cons.prems have sub: "set xs \<subseteq> set (keys informed)" by simp
  show ?case
  proof (cases b)
    case True
    from Cons.IH [OF sub, of newly k] b True show ?thesis by auto
  next
    case False
    show ?thesis
    proof (cases "rnd k < p")
      case hit: True
      from Cons.IH [OF sub, of "newly @ [x]" "Suc k"] obtain n' k' where
        r: "spread_to_neighbors rnd p informed xs (newly @ [x], Suc k) = Inr (n', k')"
        and s1: "set (newly @ [x]) \<subseteq> set n'"
        and s2: "set n' \<subseteq> set (newly @ [x]) \<union> {v \<in> set xs. map_of informed v = Some False}"
        and s3: "(\<forall>j. rnd j < p) \<longrightarrow>
              set n' = set (newly @ [x]) \<union> {v \<in> set xs. map_of informed v = Some False}"
        by blast
      have "spread_to_neighbors rnd p informed (x # xs) (newly, k) = Inr (n', k')"
        using b False hit r by simp
      moreover have "set newly \<subseteq> set n'" using s1 by auto
      moreover have "set n' \<subseteq> set newly \<union> {v \<in> set (x # xs). map_of informed v = Some False}"
        using s2 b False by auto
      moreover have "(\<forall>j. rnd j < p) \<longrightarrow>
              set n' = set newly \<union> {v \<in> set (x # xs). map_of informed v = Some False}"
        using s3 b False by auto
      moreover have "(\<forall>j. \<not> rnd j < p) \<longrightarrow> n' = newly" using hit by blast
      ultimately show ?thesis by blast
    next
      case miss: False
      from Cons.IH [OF sub, of newly "Suc k"] obtain n' k' where
        r: "spread_to_neighbors rnd p informed xs (newly, Suc k) = Inr (n', k')"
        and s1: "set newly \<subseteq> set n'"
        and s2: "set n' \<subseteq> set newly \<union> {v \<in> set xs. map_of informed v = Some False}"
        and s4: "(\<forall>j. \<not> rnd j < p) \<longrightarrow> n' = newly"
        by blast
      have "spread_to_neighbors rnd p informed (x # xs) (newly, k) = Inr (n', k')"
        using b False miss r by simp
      moreover have "set n' \<subseteq> set newly \<union> {v \<in> set (x # xs). map_of informed v = Some False}"
        using s2 by auto
      moreover have "(\<forall>j. rnd j < p) \<longrightarrow>
              set n' = set newly \<union> {v \<in> set (x # xs). map_of informed v = Some False}"
        using miss by blast
      ultimately show ?thesis using s1 s4 by blast
    qed
  qed
qed

lemma spread_from_users_result:
  assumes "wf_digraph g" "keys informed = nodes g" "set us \<subseteq> set (nodes g)"
  shows "\<exists>newly' k'. spread_from_users rnd p g informed us (newly, k) = Inr (newly', k') \<and>
           set newly \<subseteq> set newly' \<and>
           set newly' \<subseteq> set newly \<union>
             {v. \<exists>u \<in> set us. has_edge g u v \<and> map_of informed v = Some False} \<and>
           ((\<forall>j. rnd j < p) \<longrightarrow>
              set newly' = set newly \<union>
                {v. \<exists>u \<in> set us. has_edge g u v \<and> map_of informed v = Some False}) \<and>
           ((\<forall>j. \<not> rnd j < p) \<longrightarrow> newly' = newly)"
  using assms(3)
proof (induction us arbitrary: newly k)
  case Nil
  then show ?case by simp
next
  case (Cons u us)
  from Cons.prems have "has_node g u" by (simp add: has_node_def nodes_def)
  with assms(1) obtain nbrs where nb: "successors g u = Inr nbrs" "set nbrs \<subseteq> set (nodes g)"
    "\<And>v. v \<in> set nbrs \<longleftrightarrow> has_edge g u v"
    by (rule successors_wf) blast
  from nb(2) assms(2) have "set nbrs \<subseteq> set (keys informed)" by simp
  from spread_to_neighbors_result [OF this, of rnd p newly k] obtain n1 k1 where
    r1: "spread_to_neighbors rnd p informed nbrs (newly, k) = Inr (n1, k1)"
    and a1: "set newly \<subseteq> set n1"
    and a2: "set n1 \<subseteq> set newly \<union> {v \<in> set nbrs. map_of informed v = Some False}"
    and a3: "(\<forall>j. rnd j < p) \<longrightarrow>
              set n1 = set newly \<union> {v \<in> set nbrs. map_of informed v = Some False}"
    and a4: "(\<forall>j. \<not> rnd j < p) \<longrightarrow> n1 = newly"
    by blast
  from Cons.prems have "set us \<subseteq> set (nodes g)" by simp
  from Cons.IH [OF this, of n1 k1] obtain n2 k2 where
    r2: "spread_from_users rnd p g informed us (n1, k1) = Inr (n2, k2)"
    and b1: "set n1 \<subseteq> set n2"
    and b2: "set n2 \<subseteq> set n1 \<union>
             {v. \<exists>u \<in> set us. has_edge g u v \<and> map_of informed v = Some False}"
    and b3: "(\<forall>j. rnd j < p) \<longrightarrow>
              set n2 = set n1 \<union>
                {v. \<exists>u \<in> set us. has_edge g u v \<and> map_of informed v = Some False}"
    and b4: "(\<forall>j. \<not> rnd j < p) \<longrightarrow> n2 = n1"
    by blast
  have "spread_from_users rnd p g informed (u # us) (newly, k) = Inr (n2, k2)"
    using nb(1) r1 r2 by simp
  moreover have "set newly \<subseteq> set n2" using a1 b1 by blast
  moreover have "set n2 \<subseteq> set newly \<union>
             {v. \<exists>w \<in> set (u # us). has_edge g w v \<and> map_of informed v = Some False}"
    using a2 b2 nb(3) by auto
  moreover have "(\<forall>j. rnd j < p) \<longrightarrow>
              set n2 = set newly \<union>
                {v. \<exists>w \<in> set (u # us). has_edge g w v \<and> map_of informed v = Some False}"
    using a3 b3 nb(3) by auto
  moreover have "(\<forall>j. \<not> rnd j < p) \<longrightarrow> n2 = newly" using a4 b4 by simp
  ultimately show ?case by blast
qed

lemma mark_informed_keys:
  "set newly \<subseteq> set (keys informed) \<Longrightarrow> keys (mark_informed informed newly) = keys informed"
  unfolding mark_informed_def
  by (induction newly arbitrary: informed) (simp_all add: keys_update_present)

lemma mark_informed_lookup:
  "map_of (mark_informed informed newly) v =
     (if v \<in> set newly then Some True else map_of informed v)"
  unfolding mark_informed_def
  by (induction newly arbitrary: informed) (simp_all add: AList.update_conv')

lemma informed_users:
  "distinct (keys informed) \<Longrightarrow> set (map fst (filter snd informed)) = informed_set informed"
  by (auto simp: informed_set_def keys_def image_iff)

lemma informed_set_subset_keys: "informed_set informed \<subseteq> set (keys informed)"
  by (auto simp: informed_set_def in_keys_iff)

lemma spread_iterations_general:
  assumes "wf_digraph g"
  shows "keys informed = nodes g \<Longrightarrow>
         \<exists>inf'. spread_iterations n rnd p g informed k = Inr inf' \<and> keys inf' = nodes g \<and>
           ((\<forall>j. \<not> rnd j < p) \<longrightarrow> inf' = informed)"
proof (induction n arbitrary: informed k)
  case 0
  then show ?case by simp
next
  case (Suc n)
  from assms have d: "distinct (keys informed)"
    using Suc.prems by (simp add: wf_digraph_def nodes_def)
  let ?us = "map fst (filter snd informed)"
  have "set ?us \<subseteq> set (nodes g)"
    using informed_users [OF d] informed_set_subset_keys [of informed] Suc.prems by simp
  from spread_from_users_result [OF assms Suc.prems this, of rnd p "[]" k]
  obtain newly k' where
    r: "spread_from_users rnd p g informed ?us ([], k) = Inr (newly, k')"
    and s: "set newly \<subseteq> {v. \<exists>u \<in> set ?us. has_edge g u v \<and> map_of informed v = Some False}"
    and z: "(\<forall>j. \<not> rnd j < p) \<longrightarrow> newly = []"
    by auto
  have "set newly \<subseteq> set (keys informed)"
    using s by (auto simp: in_keys_iff)
  then have mk: "keys (mark_informed informed newly) = nodes g"
    using Suc.prems by (simp add: mark_informed_keys)
  show ?case
  proof (cases "newly = []")
    case True
    then show ?thesis using r Suc.prems by (simp add: mark_informed_def)
  next
    case False
    with z have nz: "\<not> (\<forall>j. \<not> rnd j < p)" by blast
    from Suc.IH [OF mk, of k'] obtain inf' where
      i: "spread_iterations n rnd p g (mark_informed informed newly) k' = Inr inf'"
      "keys inf' = nodes g" by blast
    have "spread_iterations (Suc n) rnd p g informed k = Inr inf'"
      using r False i(1) by simp
    with i(2) nz show ?thesis by blast
  qed
qed

lemma closed_reachable:
  assumes "s \<in> T" "\<And>u v. u \<in> T \<Longrightarrow> has_edge g u v \<Longrightarrow> v \<in> T" "reachable g s v"
  shows "v \<in> T"
proof -
  from assms(3) have "(s, v) \<in> (edge_rel g)\<^sup>*" by (simp add: reachable_def)
  then show ?thesis
  proof (induction rule: rtrancl_induct)
    case base
    then show ?case by (rule assms(1))
  next
    case (step y z)
    then show ?case using assms(2) by (auto simp: edge_rel_def)
  qed
qed

lemma reachable_step: "reachable g s u \<Longrightarrow> has_edge g u v \<Longrightarrow> reachable g s v"
  by (auto simp: reachable_def edge_rel_def intro: rtrancl_into_rtrancl)

lemma spread_iterations_certain:
  assumes "wf_digraph g" "\<forall>j. rnd j < p"
  shows "keys informed = nodes g \<Longrightarrow> s \<in> informed_set informed \<Longrightarrow>
         informed_set informed \<subseteq> {v. reachable g s v} \<Longrightarrow>
         length (nodes g) < card (informed_set informed) + n \<Longrightarrow>
         \<exists>inf'. spread_iterations n rnd p g informed k = Inr inf' \<and> keys inf' = nodes g \<and>
           informed_set inf' = {v. reachable g s v}"
proof (induction n arbitrary: informed k)
  case 0
  have "card (informed_set informed) \<le> card (set (keys informed))"
    by (rule card_mono) (simp_all add: informed_set_subset_keys)
  also have "\<dots> \<le> length (nodes g)" using "0.prems"(1) by (simp add: card_length)
  finally show ?case using "0.prems"(4) by simp
next
  case (Suc n)
  from assms(1) have d: "distinct (keys informed)"
    using Suc.prems(1) by (simp add: wf_digraph_def nodes_def)
  let ?us = "map fst (filter snd informed)"
  let ?T = "informed_set informed"
  have us: "set ?us = ?T" by (rule informed_users [OF d])
  have "set ?us \<subseteq> set (nodes g)"
    using us informed_set_subset_keys [of informed] Suc.prems(1) by simp
  from spread_from_users_result [OF assms(1) Suc.prems(1) this, of rnd p "[]" k] assms(2)
  obtain newly k' where
    r: "spread_from_users rnd p g informed ?us ([], k) = Inr (newly, k')"
    and s0: "set newly = set [] \<union>
               {v. \<exists>u \<in> set ?us. has_edge g u v \<and> map_of informed v = Some False}"
    by blast
  have s: "set newly = {v. \<exists>u \<in> ?T. has_edge g u v \<and> map_of informed v = Some False}"
    unfolding s0 us by simp
  have nk: "set newly \<subseteq> set (keys informed)"
    using s by (auto simp: in_keys_iff)
  let ?inf1 = "mark_informed informed newly"
  have mk: "keys ?inf1 = nodes g"
    using Suc.prems(1) nk by (simp add: mark_informed_keys)
  have T1: "informed_set ?inf1 = ?T \<union> set newly"
    by (auto simp: informed_set_def mark_informed_lookup)
  show ?case
  proof (cases "newly = []")
    case True
    have closed: "\<And>u v. u \<in> ?T \<Longrightarrow> has_edge g u v \<Longrightarrow> v \<in> ?T"
    proof -
      fix u v assume u: "u \<in> ?T" and e: "has_edge g u v"
      from has_edge_target_node(1) [OF assms(1) e] have "v \<in> set (keys informed)"
        using Suc.prems(1) by (simp add: has_node_def nodes_def)
      then obtain b where b: "map_of informed v = Some b" by (auto simp: in_keys_iff)
      have "\<not> (map_of informed v = Some False)"
        using s True u e by auto
      with b show "v \<in> ?T" by (cases b) (simp_all add: informed_set_def)
    qed
    have "{v. reachable g s v} \<subseteq> ?T"
      using closed_reachable [OF Suc.prems(2), of g] closed by blast
    with Suc.prems(3) have "?T = {v. reachable g s v}" by blast
    then show ?thesis using r True Suc.prems(1) by (simp add: mark_informed_def)
  next
    case False
    have disj: "?T \<inter> set newly = {}"
      using s by (auto simp: informed_set_def)
    have fin: "finite ?T"
      using informed_set_subset_keys [of informed] by (rule finite_subset) simp
    have "card (informed_set ?inf1) = card ?T + card (set newly)"
      unfolding T1 using fin disj by (simp add: card_Un_disjoint)
    moreover have "0 < card (set newly)" using False by (simp add: card_gt_0_iff)
    ultimately have c: "length (nodes g) < card (informed_set ?inf1) + n"
      using Suc.prems(4) by simp
    have s1: "s \<in> informed_set ?inf1" using T1 Suc.prems(2) by simp
    have "set newly \<subseteq> {v. reachable g s v}"
      using s Suc.prems(3) reachable_step by blast
    with Suc.prems(3) T1 have sub: "informed_set ?inf1 \<subseteq> {v. reachable g s v}" by simp
    from Suc.IH [OF mk s1 sub c, of k'] obtain inf' where
      "spread_iterations n rnd p g ?inf1 k' = Inr inf'" "keys inf' = nodes g"
      "informed_set inf' = {v. reachable g s v}" by blast
    then show ?thesis using r False by simp
  qed
qed

lemma initial_informed_keys:
  "has_node g s \<Longrightarrow>
   keys (AList.update s True (map (\<lambda>user. (user, False)) (nodes g))) = nodes g"
  by (simp add: keys_def AList.update_keys has_node_def nodes_def comp_def)

lemma initial_informed_lookup:
  "map_of (AList.update s True (map (\<lambda>user. (user, False)) (nodes g))) v =
     (if v = s then Some True else if v \<in> set (nodes g) then Some False else None)"
  by (simp add: AList.update_conv' map_of_map_restrict restrict_map_def)

lemma initial_informed_set:
  "informed_set (AList.update s True (map (\<lambda>user. (user, False)) (nodes g))) = {s}"
  by (auto simp: informed_set_def initial_informed_lookup)

text \<open>
  C1. With probability 1.0 every draw of the random source is a hit. For a seed in a
  well-formed graph and a number of iterations at least the number of nodes, the
  simulation returns a mapping over the nodes that marks a node informed exactly when it
  is the seed or the seed reaches it along directed edges, from source to target. The
  relation followed is the directed one: in the chain \<open>A \<rightarrow> B \<rightarrow> C\<close> seeded
  at \<open>B\<close>, \<open>A\<close> stays uninformed.
\<close>

theorem spread_certain_reaches_forward_set:
  assumes "wf_digraph g" "has_node g seed" "is_random_source rnd"
    and "int (length (nodes g)) \<le> iterations"
  shows "\<exists>informed. simulate_information_spread rnd g seed 1 iterations = Inr informed \<and>
           keys informed = nodes g \<and>
           (\<forall>v. map_of informed v = Some True \<longleftrightarrow>
                  v = seed \<or> (seed, v) \<in> (edge_rel g)\<^sup>+)"
proof -
  let ?inf0 = "AList.update seed True (map (\<lambda>user. (user, False)) (nodes g))"
  from assms(3) have hit: "\<forall>j. rnd j < 1" by (simp add: is_random_source_def)
  have k0: "keys ?inf0 = nodes g" by (rule initial_informed_keys [OF assms(2)])
  have s0: "seed \<in> informed_set ?inf0" by (simp add: initial_informed_set)
  have r0: "informed_set ?inf0 \<subseteq> {v. reachable g seed v}"
    by (simp add: initial_informed_set reachable_def)
  have c0: "length (nodes g) < card (informed_set ?inf0) + nat iterations"
    using assms(4) by (simp add: initial_informed_set)
  from spread_iterations_certain [OF assms(1) hit k0 s0 r0 c0, of 0] obtain informed where
    i: "spread_iterations (nat iterations) rnd 1 g ?inf0 0 = Inr informed"
    "keys informed = nodes g" "informed_set informed = {v. reachable g seed v}"
    by blast
  have "simulate_information_spread rnd g seed 1 iterations = Inr informed"
    using assms(2) i(1) by (simp add: simulate_information_spread_def)
  moreover have "\<forall>v. map_of informed v = Some True \<longleftrightarrow>
                  v = seed \<or> (seed, v) \<in> (edge_rel g)\<^sup>+"
  proof
    fix v
    have "map_of informed v = Some True \<longleftrightarrow> v \<in> informed_set informed"
      by (simp add: informed_set_def)
    also have "\<dots> \<longleftrightarrow> (seed, v) \<in> (edge_rel g)\<^sup>*" by (simp add: i(3) reachable_def)
    also have "\<dots> \<longleftrightarrow> v = seed \<or> (seed, v) \<in> (edge_rel g)\<^sup>+"
      by (auto simp: rtrancl_eq_or_trancl)
    finally show "map_of informed v = Some True \<longleftrightarrow>
                  v = seed \<or> (seed, v) \<in> (edge_rel g)\<^sup>+" .
  qed
  ultimately show ?thesis using i(2) by blast
qed

text \<open>
  C9. For a seed that is not a node the simulation returns the empty mapping. For a seed
  in a well-formed graph it returns, for every probability and number of iterations, a
  boolean mapping whose keys are the nodes of the graph, in their order; and with
  probability 0.0 the seed is the only node mapped to true, whatever the number of
  iterations.
\<close>

theorem spread_unknown_seed_and_never:
  assumes "wf_digraph g" "is_random_source rnd"
  shows "(\<not> has_node g seed \<longrightarrow>
            simulate_information_spread rnd g seed probability iterations = Inr []) \<and>
         (has_node g seed \<longrightarrow>
            (\<exists>informed. simulate_information_spread rnd g seed probability iterations
                           = Inr informed \<and> keys informed = nodes g) \<and>
            (\<exists>informed. simulate_information_spread rnd g seed 0 iterations = Inr informed \<and>
               keys informed = nodes g \<and>
               (\<forall>v. map_of informed v = Some True \<longleftrightarrow> v = seed)))"
proof (intro conjI impI)
  assume "\<not> has_node g seed"
  then show "simulate_information_spread rnd g seed probability iterations = Inr []"
    by (simp add: simulate_information_spread_def)
next
  assume h: "has_node g seed"
  let ?inf0 = "AList.update seed True (map (\<lambda>user. (user, False)) (nodes g))"
  have k0: "keys ?inf0 = nodes g" by (rule initial_informed_keys [OF h])
  from spread_iterations_general [OF assms(1) k0, of "nat iterations" rnd probability 0]
  show "\<exists>informed. simulate_information_spread rnd g seed probability iterations
                           = Inr informed \<and> keys informed = nodes g"
    using h by (auto simp: simulate_information_spread_def)
next
  assume h: "has_node g seed"
  let ?inf0 = "AList.update seed True (map (\<lambda>user. (user, False)) (nodes g))"
  have k0: "keys ?inf0 = nodes g" by (rule initial_informed_keys [OF h])
  from assms(2) have miss: "\<forall>j. \<not> rnd j < 0" by (simp add: is_random_source_def not_less)
  from spread_iterations_general [OF assms(1) k0, of "nat iterations" rnd 0 0] miss
  have "spread_iterations (nat iterations) rnd 0 g ?inf0 0 = Inr ?inf0" by auto
  then have "simulate_information_spread rnd g seed 0 iterations = Inr ?inf0"
    using h by (simp add: simulate_information_spread_def)
  moreover have "\<forall>v. map_of ?inf0 v = Some True \<longleftrightarrow> v = seed"
    by (simp add: initial_informed_lookup)
  ultimately show "\<exists>informed. simulate_information_spread rnd g seed 0 iterations = Inr informed \<and>
               keys informed = nodes g \<and>
               (\<forall>v. map_of informed v = Some True \<longleftrightarrow> v = seed)"
    using k0 by blast
qed

lemma half_random_source: "is_random_source (\<lambda>_. 1 / 2)"
  by (simp add: is_random_source_def)

theorem spread_certain_reaches_forward_set_witness:
  "wf_digraph example_chain \<and> has_node example_chain ''B'' \<and>
   is_random_source (\<lambda>_. 1 / 2) \<and> int (length (nodes example_chain)) \<le> 3 \<and>
   (\<exists>informed. simulate_information_spread (\<lambda>_. 1 / 2) example_chain ''B'' 1 3 = Inr informed \<and>
      keys informed = nodes example_chain \<and>
      (\<forall>v. map_of informed v = Some True \<longleftrightarrow>
             v = ''B'' \<or> (''B'', v) \<in> (edge_rel example_chain)\<^sup>+)) \<and>
   simulate_information_spread (\<lambda>_. 1 / 2) example_chain ''B'' 1 3 =
     Inr [(''A'', False), (''B'', True), (''C'', True)]"
proof -
  have w: "wf_digraph example_chain" by (rule wf_example_chain)
  have n: "has_node example_chain ''B''" by code_simp
  have l: "int (length (nodes example_chain)) \<le> 3" by code_simp
  have v: "simulate_information_spread (\<lambda>_. 1 / 2) example_chain ''B'' 1 3 =
     Inr [(''A'', False), (''B'', True), (''C'', True)]" by code_simp
  show ?thesis
    using spread_certain_reaches_forward_set [OF w n half_random_source l] w n l v
      half_random_source by blast
qed

theorem spread_unknown_seed_and_never_witness:
  "wf_digraph example_chain \<and> is_random_source (\<lambda>_. 1 / 2) \<and>
   \<not> has_node example_chain ''Z'' \<and>
   simulate_information_spread (\<lambda>_. 1 / 2) example_chain ''Z'' (1 / 2) 10 = Inr [] \<and>
   has_node example_chain ''A'' \<and>
   (\<exists>informed. simulate_information_spread (\<lambda>_. 1 / 2) example_chain ''A'' (3 / 4) 10
                  = Inr informed \<and> keys informed = nodes example_chain) \<and>
   (\<exists>informed. simulate_information_spread (\<lambda>_. 1 / 2) example_chain ''A'' 0 10 = Inr informed \<and>
      keys informed = nodes example_chain \<and>
      (\<forall>v. map_of informed v = Some True \<longleftrightarrow> v = ''A''))"
proof -
  have w: "wf_digraph example_chain" by (rule wf_example_chain)
  have z: "\<not> has_node example_chain ''Z''" by code_simp
  have a: "has_node example_chain ''A''" by code_simp
  show ?thesis
    using spread_unknown_seed_and_never [OF w half_random_source, of "''Z''" "1 / 2" 10]
      spread_unknown_seed_and_never [OF w half_random_source, of "''A''" "3 / 4" 10]
      w z a half_random_source by blast
qed

section \<open>Centrality records\<close>


lemma map_of_map_key: "map_of (map (\<lambda>n. (n, f n)) ns) u = (if u \<in> set ns then Some (f u) else None)"
  by (induction ns) auto

lemma centrality_measures_keys: "keys (get_centrality_measures lib g) = nodes g"
  by (cases "nodes g") (simp_all add: get_centrality_measures_def keys_def Let_def comp_def)

text \<open>
  C7. For a handle that is not a node, \<open>get_user_centrality\<close> returns the record of
  four zeros and \<open>calculate_influence_score\<close> returns 0.0, whatever the library's
  algorithms return or raise on the graph.
\<close>

theorem unknown_user_centrality_zero:
  assumes "\<not> has_node g h"
  shows "get_user_centrality lib g h =
           \<lparr>degree_c = 0, eigenvector_c = 0, betweenness_c = 0, closeness_c = 0\<rparr> \<and>
         calculate_influence_score lib g h = 0"
proof -
  from assms have "h \<notin> set (keys (get_centrality_measures lib g))"
    by (simp add: centrality_measures_keys has_node_def nodes_def)
  then have "map_of (get_centrality_measures lib g) h = None"
    by (simp add: in_keys_iff)
  then show ?thesis
    using assms by (simp add: get_user_centrality_def dict_get_def calculate_influence_score_def)
qed

theorem unknown_user_centrality_zero_witness:
  "\<not> has_node example_mutual ''Z'' \<and>
   get_user_centrality example_mutual_library example_mutual ''Z'' =
     \<lparr>degree_c = 0, eigenvector_c = 0, betweenness_c = 0, closeness_c = 0\<rparr> \<and>
   calculate_influence_score example_mutual_library example_mutual ''Z'' = 0"
proof -
  have n: "\<not> has_node example_mutual ''Z''" by code_simp
  show ?thesis using unknown_user_centrality_zero [OF n] n by blast
qed

lemma degree_centrality_lookup:
  "u \<in> set (nodes g) \<Longrightarrow>
   dict_get (degree_centrality g) u 0 =
     (if length (nodes g) \<le> 1 then 1 else real (degree g u) / (real (length (nodes g)) - 1))"
  by (simp add: degree_centrality_def dict_get_def map_of_map_key Let_def)

lemma wf_pred_entry:
  assumes "wf_digraph g" "has_node g u"
  obtains prs where "map_of (g_pred g) u = Some prs" "distinct (keys prs)"
    "set (keys prs) \<subseteq> set (nodes g)"
proof -
  from assms have "u \<in> set (keys (g_pred g))"
    by (simp add: wf_digraph_def has_node_def)
  then obtain prs where m: "map_of (g_pred g) u = Some prs"
    by (auto simp: in_keys_iff)
  then have "(u, prs) \<in> set (g_pred g)" by (rule map_of_SomeD)
  with assms(1) have "distinct (keys prs) \<and> set (keys prs) \<subseteq> set (nodes g)"
    by (force simp: wf_digraph_def wf_adjacency_def nodes_def)
  with m that show ?thesis by blast
qed

lemma distinct_subset_length:
  assumes "distinct xs" "set xs \<subseteq> set ys"
  shows "length xs \<le> length ys"
proof -
  have "length xs = card (set xs)" using assms(1) by (simp add: distinct_card)
  also have "\<dots> \<le> card (set ys)" using assms(2) by (simp add: card_mono)
  also have "\<dots> \<le> length ys" by (rule card_length)
  finally show ?thesis .
qed

lemma distinct_subset_length_less:
  assumes "distinct xs" "set xs \<subseteq> set ys" "u \<in> set ys" "u \<notin> set xs"
  shows "length xs < length ys"
proof -
  have "length xs = card (set xs)" using assms(1) by (simp add: distinct_card)
  also have "\<dots> < card (set ys)"
    using assms(2,3,4) by (intro psubset_card_mono) auto
  also have "\<dots> \<le> length ys" by (rule card_length)
  finally show ?thesis .
qed

lemma pred_self_loop:
  assumes "wf_digraph g" "map_of (g_pred g) u = Some prs" "u \<in> set (keys prs)"
  shows "has_edge g u u"
proof -
  from assms(3) obtain d where d: "(u, d) \<in> set prs" by (auto simp: keys_def)
  from assms(2) have "(u, prs) \<in> set (g_pred g)" by (rule map_of_SomeD)
  with assms(1) d have "map_of (adj_of (g_succ g) u) u = Some d"
    by (force simp: wf_digraph_def mirrors_def)
  then have k: "u \<in> set (keys (adj_of (g_succ g) u))" by (simp add: in_keys_iff)
  show ?thesis
  proof (cases "map_of (g_succ g) u")
    case None
    with k show ?thesis by (simp add: adj_of_def dict_get_def keys_def)
  next
    case (Some nbrs)
    with k show ?thesis by (simp add: has_edge_iff adj_of_def dict_get_def)
  qed
qed

lemma degree_bounds:
  assumes "wf_digraph g" "has_node g u"
  shows "degree g u \<le> 2 * length (nodes g)"
    and "\<not> has_edge g u u \<Longrightarrow> degree g u \<le> 2 * (length (nodes g) - 1)"
proof -
  from assms obtain nbrs where s: "map_of (g_succ g) u = Some nbrs" "distinct (keys nbrs)"
    "set (keys nbrs) \<subseteq> set (nodes g)" by (rule wf_succ_entry)
  from assms obtain prs where p: "map_of (g_pred g) u = Some prs" "distinct (keys prs)"
    "set (keys prs) \<subseteq> set (nodes g)" by (rule wf_pred_entry)
  have od: "out_degree g u = length (keys nbrs)"
    using s(1) by (simp add: out_degree_def adj_of_def dict_get_def keys_def)
  have id: "in_degree g u = length (keys prs)"
    using p(1) by (simp add: in_degree_def adj_of_def dict_get_def keys_def)
  have "length (keys nbrs) \<le> length (nodes g)" "length (keys prs) \<le> length (nodes g)"
    using s p by (simp_all add: distinct_subset_length)
  then show "degree g u \<le> 2 * length (nodes g)"
    using od id by (simp add: degree_def)
  assume nl: "\<not> has_edge g u u"
  have un: "u \<in> set (nodes g)" using assms(2) by (simp add: has_node_def nodes_def)
  have "u \<notin> set (keys nbrs)" using nl s(1) by (simp add: has_edge_iff)
  then have a: "length (keys nbrs) < length (nodes g)"
    using s un by (simp add: distinct_subset_length_less)
  have "u \<notin> set (keys prs)" using nl pred_self_loop [OF assms(1) p(1)] by blast
  then have b: "length (keys prs) < length (nodes g)"
    using p un by (simp add: distinct_subset_length_less)
  show "degree g u \<le> 2 * (length (nodes g) - 1)"
    using a b od id by (simp add: degree_def)
qed

lemma degree_score_bounds:
  assumes "wf_digraph g" "has_node g u"
  shows "0 \<le> dict_get (degree_centrality g) u 0"
    and "dict_get (degree_centrality g) u 0 \<le> 4"
    and "\<not> has_edge g u u \<Longrightarrow> dict_get (degree_centrality g) u 0 \<le> 2"
proof -
  let ?n = "length (nodes g)"
  from assms(2) have un: "u \<in> set (nodes g)" by (simp add: has_node_def nodes_def)
  have d: "dict_get (degree_centrality g) u 0 =
      (if ?n \<le> 1 then 1 else real (degree g u) / (real ?n - 1))"
    by (rule degree_centrality_lookup [OF un])
  show "0 \<le> dict_get (degree_centrality g) u 0" unfolding d by simp
  show "dict_get (degree_centrality g) u 0 \<le> 4"
  proof (cases "?n \<le> 1")
    case True
    then show ?thesis unfolding d by simp
  next
    case False
    then have n2: "2 \<le> real ?n" by simp
    have "real (degree g u) \<le> 2 * real ?n"
      using degree_bounds(1) [OF assms(1,2)] by (metis of_nat_le_iff of_nat_mult of_nat_numeral)
    also have "\<dots> \<le> 4 * (real ?n - 1)" using n2 by simp
    finally have "real (degree g u) / (real ?n - 1) \<le> 4"
      using n2 by (simp add: pos_divide_le_eq)
    then show ?thesis unfolding d using False by simp
  qed
  show "dict_get (degree_centrality g) u 0 \<le> 2" if nl: "\<not> has_edge g u u"
  proof (cases "?n \<le> 1")
    case True
    then show ?thesis unfolding d by simp
  next
    case False
    then have n2: "2 \<le> real ?n" by simp
    have "degree g u \<le> 2 * (?n - 1)" by (rule degree_bounds(2) [OF assms(1,2) nl])
    then have "real (degree g u) \<le> real (2 * (?n - 1))" by (simp only: of_nat_le_iff)
    also have "\<dots> = 2 * (real ?n - 1)" using False by (simp add: of_nat_diff)
    finally have "real (degree g u) / (real ?n - 1) \<le> 2"
      using n2 by (simp add: pos_divide_le_eq)
    then show ?thesis unfolding d using False by simp
  qed
qed

lemma wf_example_mutual: "wf_digraph example_mutual"
  by code_simp

lemma nodes_example_mutual: "nodes example_mutual = [''A'', ''B'']"
  by code_simp

lemma degree_example_mutual:
  "in_degree example_mutual ''A'' = 1 \<and> out_degree example_mutual ''A'' = 1"
  by code_simp

text \<open>
  C5. The degree score of the claim does not stay within 0 and 1: when two users are
  each other's friend, each has in-degree 1 and out-degree 1 among one other node, and
  \<open>get_centrality_measures\<close> stores the degree score 2, whatever the library's other
  algorithms return. At this input the program's double arithmetic is exact
  (\<open>1.0 / (2 - 1.0)\<close> is 1.0 and \<open>2 * 1.0\<close> is 2.0), so the score of the model is the
  score of the program.
\<close>

theorem degree_centrality_exceeds_one:
  "nodes example_mutual = [''A'', ''B''] \<and>
   in_degree example_mutual ''A'' = 1 \<and> out_degree example_mutual ''A'' = 1 \<and>
   map_of (get_centrality_measures lib example_mutual) ''A'' =
     Some (get_user_centrality lib example_mutual ''A'') \<and>
   degree_c (get_user_centrality lib example_mutual ''A'') = 2 \<and>
   \<not> degree_c (get_user_centrality lib example_mutual ''A'') \<le> 1"
proof -
  let ?r = "\<lparr>degree_c = dict_get (degree_centrality example_mutual) ''A'' 0,
     eigenvector_c =
       dict_get (or_zeros example_mutual (eigenvector_centrality lib example_mutual)) ''A'' 0,
     betweenness_c =
       dict_get (or_zeros example_mutual (betweenness_centrality lib example_mutual)) ''A'' 0,
     closeness_c =
       dict_get (or_zeros example_mutual (closeness_centrality lib example_mutual)) ''A'' 0\<rparr>"
  have m: "map_of (get_centrality_measures lib example_mutual) ''A'' = Some ?r"
    by (simp add: get_centrality_measures_def Let_def nodes_example_mutual)
  then have r: "get_user_centrality lib example_mutual ''A'' = ?r"
    by (simp add: get_user_centrality_def dict_get_def)
  have "dict_get (degree_centrality example_mutual) ''A'' 0 = 2"
    by (simp add: degree_centrality_def dict_get_def nodes_example_mutual degree_def
        degree_example_mutual Let_def)
  then have d: "degree_c (get_user_centrality lib example_mutual ''A'') = 2"
    by (simp add: r)
  show ?thesis
    using m r d nodes_example_mutual degree_example_mutual by simp
qed

text \<open>
  With a degree score above 1 the influence score leaves the range its docstring gives
  (\<open>Influence score (0-1)\<close>, after \<open>Normalize to 0-1 scale\<close>). In the star of
  \<open>example_star\<close> the hub \<open>A\<close> has degree score 2; when the library gives it the
  betweenness 1 and the closeness 1 of a hub and any positive eigenvector score, the
  weighted sum is above 1.
\<close>

lemma nodes_example_star: "nodes example_star = [''A'', ''B'', ''C'']"
  by code_simp

lemma degree_example_star: "degree example_star ''A'' = 4"
  by code_simp

lemma influence_score_exceeds_one:
  assumes "eigenvector_centrality lib example_star = Inr es" "map_of es ''A'' = Some e" "0 < e"
    and "betweenness_centrality lib example_star = Inr bs" "map_of bs ''A'' = Some 1"
    and "closeness_centrality lib example_star = Inr cs" "map_of cs ''A'' = Some 1"
  shows "1 < calculate_influence_score lib example_star ''A''"
proof -
  have h: "has_node example_star ''A''"
    by (simp add: has_node_def nodes_example_star [unfolded nodes_def])
  have d: "dict_get (degree_centrality example_star) ''A'' 0 = 2"
    by (simp add: degree_centrality_def dict_get_def nodes_example_star degree_example_star
        Let_def)
  have "map_of (get_centrality_measures lib example_star) ''A'' =
      Some \<lparr>degree_c = 2, eigenvector_c = e, betweenness_c = 1, closeness_c = 1\<rparr>"
    using assms d
    by (simp add: get_centrality_measures_def Let_def nodes_example_star or_zeros_def
        dict_get_def)
  then have "get_user_centrality lib example_star ''A'' =
      \<lparr>degree_c = 2, eigenvector_c = e, betweenness_c = 1, closeness_c = 1\<rparr>"
    by (simp add: get_user_centrality_def dict_get_def)
  then have "calculate_influence_score lib example_star ''A'' = 1 + 3 / 10 * e"
    using h by (simp add: calculate_influence_score_def Let_def)
  then show ?thesis using assms(3) by simp
qed

section \<open>Connectivity of the empty graph\<close>

text \<open>
  C4. On the empty graph \<open>get_connectivity_data\<close> does not return its record:
  \<open>nx.is_connected\<close>, called first and outside any guard, raises for a graph without
  nodes. The guards further down, which would give no components and the percentage
  \<open>0.00%\<close>, are never reached.
\<close>

theorem connectivity_empty_graph_raises:
  "get_connectivity_data empty_digraph =
     Inl (NetworkXPointlessConcept ''Connectivity is undefined for the null graph.'') \<and>
   map length (connected_components (to_undirected empty_digraph)) = [] \<and>
   format_2f 0 @ ''%'' = ''0.00%''"
  by code_simp

section \<open>Communities of a graph whose only edge is a self-loop\<close>

text \<open>
  C2. For the user who is their own friend, the undirected projection has one edge, so
  Girvan-Newman does not take its branch for a graph without edges; it removes the
  self-loop, finds no edge left and yields nothing, and \<open>next\<close> raises
  \<open>StopIteration\<close>. This happens for the method \<open>girvan_newman\<close> and for every
  unrecognised method, whatever the library's other algorithms do; the partition of the
  one node into one community is not returned.
\<close>

theorem detect_communities_selfloop_raises:
  "detect_communities lib example_selfloop ''girvan_newman'' = Inl StopIteration \<and>
   detect_communities lib example_selfloop ''unknown'' = Inl StopIteration \<and>
   nodes example_selfloop = [''A''] \<and>
   is_partition_of [[''A'']] (nodes example_selfloop)"
proof -
  have e: "number_of_edges (to_undirected example_selfloop) = 1" by code_simp
  have r: "number_of_edges (remove_selfloops (to_undirected example_selfloop)) = 0"
    by code_simp
  have g: "girvan_newman_first lib (to_undirected example_selfloop) = Inl StopIteration"
    by (simp add: girvan_newman_first_def e r Let_def)
  have n: "nodes example_selfloop = [''A'']" by code_simp
  show ?thesis using g n by (simp add: detect_communities_def Let_def is_partition_of_def)
qed

end
